theory Spec2Isabelle
  imports Main "HOL-Library.Word"
begin

unbundle bit_operations_syntax

section \<open>Data model of the BLE scanner (src/main.c)\<close>

type_synonym u8 = "8 word"
type_synonym u16 = "16 word"
type_synonym u32 = "32 word"

text \<open>The compile-time constants \<^verbatim>\<open>MAX_DEVICES\<close>, \<^verbatim>\<open>HASH_SIZE\<close>, \<^verbatim>\<open>HASH_MASK\<close>,
  \<^verbatim>\<open>UART_HEADER_MAGIC\<close> and \<^verbatim>\<open>UART_HEADER_LENGTH\<close>.\<close>

definition MAX_DEVICES :: nat where
  "MAX_DEVICES = 1024"

definition HASH_SIZE :: nat where
  "HASH_SIZE = 1024"

definition HASH_MASK :: u32 where
  "HASH_MASK = of_nat (HASH_SIZE - 1)"

definition UART_HEADER_MAGIC :: u8 where
  "UART_HEADER_MAGIC = 0x55"

definition UART_HEADER_LENGTH :: nat where
  "UART_HEADER_LENGTH = 4"

datatype entry_state = ENTRY_EMPTY | ENTRY_OCCUPIED | ENTRY_DELETED

text \<open>\<^verbatim>\<open>struct __packed device_data\<close>. The arrays \<^verbatim>\<open>addr[6]\<close> and \<^verbatim>\<open>data[31]\<close> are byte
  lists; \<^verbatim>\<open>rssi\<close> is an \<^verbatim>\<open>int8_t\<close>, kept as its 8 bits (read as a number by \<open>sint\<close>).\<close>

record device_data =
  addr :: "u8 list"
  addr_type :: u8
  adv_type :: u8
  rssi :: u8
  data_len :: u8
  data :: "u8 list"
  n_adv :: u8

text \<open>\<^verbatim>\<open>struct __packed buffer_header\<close>.\<close>

record buffer_header =
  header :: "u8 list"
  sequence :: u8
  n_adv_raw :: u16
  n_mac :: u16

text \<open>\<^verbatim>\<open>struct hash_entry\<close>.\<close>

record hash_entry =
  state :: entry_state
  device :: device_data

text \<open>The file-scope variables of the program. \<^verbatim>\<open>uart_dev\<close> is a handle of the transport
  and carries no data of its own; the bytes written to it are the value of \<open>send_buffer\<close>.\<close>

record globals =
  hash_table :: "hash_entry list"
  buffer_hdr :: buffer_header
  buffer_active :: bool
  msg_sequence :: u8
  hash_entries :: u16

text \<open>\<^verbatim>\<open>bt_addr_le_t\<close>: the address kind \<^verbatim>\<open>type\<close> and the six bytes \<^verbatim>\<open>a.val\<close>.\<close>

record bt_addr_le =
  type_le :: u8
  a_val :: "u8 list"

section \<open>The identifier hasher\<close>

text \<open>\<^verbatim>\<open>hash_mac\<close>: the loop \<^verbatim>\<open>for (i = 0; i < 6; i++) hash = (hash << 5) + hash + mac[i]\<close>
  on a \<^verbatim>\<open>uint32_t\<close>, then \<^verbatim>\<open>hash & HASH_MASK\<close>.\<close>

definition hash_mac :: "u8 list \<Rightarrow> u32" where
  "hash_mac mac =
     fold (\<lambda>i hash. push_bit 5 hash + hash + ucast (mac ! i)) [0..<6] 0 AND HASH_MASK"

section \<open>The deduplication table\<close>

text \<open>\<^verbatim>\<open>find_or_add_device\<close>. The result \<open>Some i\<close> stands for the pointer
  \<^verbatim>\<open>&hash_table[i].device\<close> and \<open>None\<close> for \<^verbatim>\<open>NULL\<close>; the updated globals are returned
  with it. \<^verbatim>\<open>memcmp(x, y, 6) == 0\<close> compares the first six bytes, \<^verbatim>\<open>memcpy(x, y, 6)\<close>
  overwrites them. The \<^verbatim>\<open>do ... while (index != original_index)\<close> loop is the recursion
  \<open>find_or_add_device_loop\<close>, entered at the top of its body; a loop that does not
  return has the value \<open>None\<close>.\<close>

partial_function (option) find_or_add_device_loop ::
  "globals \<Rightarrow> bt_addr_le \<Rightarrow> u32 \<Rightarrow> u32 \<Rightarrow> (nat option \<times> globals) option" where
  "find_or_add_device_loop s a original_index index =
     (if state (hash_table s ! unat index) = ENTRY_OCCUPIED \<and>
         take 6 (addr (device (hash_table s ! unat index))) = take 6 (a_val a)
      then Some (Some (unat index), s)
      else if state (hash_table s ! unat index) \<noteq> ENTRY_OCCUPIED
      then (if unat (n_mac (buffer_hdr s)) \<ge> MAX_DEVICES then Some (None, s)
            else if unat (hash_entries s) \<ge> MAX_DEVICES then Some (None, s)
            else Some (Some (unat index),
              s\<lparr>hash_table := (hash_table s)[unat index :=
                   (hash_table s ! unat index)
                     \<lparr>state := ENTRY_OCCUPIED,
                      device := (device (hash_table s ! unat index))
                        \<lparr>addr := take 6 (a_val a) @
                                 drop 6 (addr (device (hash_table s ! unat index))),
                         n_adv := 0\<rparr>\<rparr>],
                hash_entries := hash_entries s + 1,
                buffer_hdr := (buffer_hdr s)\<lparr>n_mac := n_mac (buffer_hdr s) + 1\<rparr>\<rparr>))
      else if (index + 1) AND HASH_MASK \<noteq> original_index
      then find_or_add_device_loop s a original_index ((index + 1) AND HASH_MASK)
      else Some (None, s))"

definition find_or_add_device ::
  "globals \<Rightarrow> bt_addr_le \<Rightarrow> (nat option \<times> globals) option" where
  "find_or_add_device s a =
     find_or_add_device_loop s a (hash_mac (a_val a)) (hash_mac (a_val a))"

section \<open>The observation recorder\<close>

text \<open>\<^verbatim>\<open>scan_cb\<close>. The \<^verbatim>\<open>net_buf_simple\<close> argument is the list of its \<^verbatim>\<open>len\<close> valid bytes;
  \<^verbatim>\<open>sizeof(device->data)\<close> is 31. The four field writes, the \<^verbatim>\<open>memset\<close>, the \<^verbatim>\<open>memcpy\<close>
  and the increment act on the record the returned pointer designates.\<close>

definition scan_cb ::
  "globals \<Rightarrow> bt_addr_le \<Rightarrow> u8 \<Rightarrow> u8 \<Rightarrow> u8 list \<Rightarrow> globals option" where
  "scan_cb s a rssi_in adv_type_in buf =
     (if \<not> buffer_active s then Some s
      else
        case find_or_add_device
               (s\<lparr>buffer_hdr := (buffer_hdr s)\<lparr>n_adv_raw := n_adv_raw (buffer_hdr s) + 1\<rparr>\<rparr>) a
        of None \<Rightarrow> None
         | Some (None, s1) \<Rightarrow> Some s1
         | Some (Some i, s1) \<Rightarrow>
             (let d = device (hash_table s1 ! i);
                  d1 = d\<lparr>addr_type := type_le a, adv_type := adv_type_in, rssi := rssi_in,
                         data_len := of_nat (min (length buf) 31)\<rparr>;
                  d2 = d1\<lparr>data := replicate 31 0\<rparr>;
                  d3 = d2\<lparr>data := take (unat (data_len d2)) buf @
                                    drop (unat (data_len d2)) (data d2)\<rparr>;
                  d4 = d3\<lparr>n_adv := n_adv d3 + 1\<rparr>
              in Some (s1\<lparr>hash_table :=
                            (hash_table s1)[i := (hash_table s1 ! i)\<lparr>device := d4\<rparr>]\<rparr>)))"

section \<open>The frame encoder and the window controller\<close>

text \<open>The frame is the object representation of the packed structs. A \<^verbatim>\<open>uint16_t\<close> lies in
  memory in the byte order of the host, which the source does not fix: it is a parameter.\<close>

datatype byte_order = LittleEndian | BigEndian

definition u16_bytes :: "byte_order \<Rightarrow> u16 \<Rightarrow> u8 list" where
  "u16_bytes bo w =
     (case bo of LittleEndian \<Rightarrow> [ucast w, ucast (drop_bit 8 w)]
               | BigEndian \<Rightarrow> [ucast (drop_bit 8 w), ucast w])"

definition header_bytes :: "byte_order \<Rightarrow> buffer_header \<Rightarrow> u8 list" where
  "header_bytes bo h =
     header h @ [sequence h] @ u16_bytes bo (n_adv_raw h) @ u16_bytes bo (n_mac h)"

definition device_bytes :: "device_data \<Rightarrow> u8 list" where
  "device_bytes d =
     addr d @ [addr_type d, adv_type d, rssi d, data_len d] @ data d @ [n_adv d]"

text \<open>\<^verbatim>\<open>send_buffer\<close>: the bytes handed to \<^verbatim>\<open>uart_poll_out\<close>, in order.\<close>

definition send_buffer :: "byte_order \<Rightarrow> globals \<Rightarrow> u8 list" where
  "send_buffer bo s =
     header_bytes bo (buffer_hdr s) @
     concat (map (\<lambda>i. if state (hash_table s ! i) = ENTRY_OCCUPIED
                        then device_bytes (device (hash_table s ! i)) else [])
                 [0..<HASH_SIZE])"

text \<open>A \<^verbatim>\<open>struct hash_entry\<close> and a \<^verbatim>\<open>struct buffer_header\<close> after \<^verbatim>\<open>memset(..., 0, ...)\<close>;
  the enumerator of value 0 is \<^verbatim>\<open>ENTRY_EMPTY\<close>.\<close>

definition zero_device :: device_data where
  "zero_device = \<lparr>addr = replicate 6 0, addr_type = 0, adv_type = 0, rssi = 0,
                  data_len = 0, data = replicate 31 0, n_adv = 0\<rparr>"

definition zero_entry :: hash_entry where
  "zero_entry = \<lparr>state = ENTRY_EMPTY, device = zero_device\<rparr>"

definition zero_header :: buffer_header where
  "zero_header = \<lparr>header = replicate UART_HEADER_LENGTH 0, sequence = 0,
                  n_adv_raw = 0, n_mac = 0\<rparr>"

text \<open>\<^verbatim>\<open>reset_buffer\<close>, statement by statement.\<close>

definition reset_buffer :: "globals \<Rightarrow> globals" where
  "reset_buffer s =
     (let s1 = s\<lparr>buffer_hdr := zero_header\<rparr>;
          s2 = s1\<lparr>hash_table := replicate HASH_SIZE zero_entry\<rparr>;
          s3 = s2\<lparr>buffer_hdr := (buffer_hdr s2)
                  \<lparr>header := replicate UART_HEADER_LENGTH UART_HEADER_MAGIC\<rparr>\<rparr>;
          s4 = s3\<lparr>buffer_hdr := (buffer_hdr s3)\<lparr>sequence := msg_sequence s3\<rparr>,
                  msg_sequence := msg_sequence s3 + 1\<rparr>;
          s5 = s4\<lparr>buffer_hdr := (buffer_hdr s4)\<lparr>n_mac := 0\<rparr>\<rparr>;
          s6 = s5\<lparr>buffer_hdr := (buffer_hdr s5)\<lparr>n_adv_raw := 0\<rparr>\<rparr>
      in s6\<lparr>hash_entries := 0\<rparr>)"

text \<open>\<^verbatim>\<open>sampling_timer_handler\<close>: the frame written and the globals afterwards.\<close>

definition sampling_timer_handler :: "byte_order \<Rightarrow> globals \<Rightarrow> u8 list \<times> globals" where
  "sampling_timer_handler bo s =
     (let s1 = s\<lparr>buffer_active := False\<rparr>;
          frame = send_buffer bo s1;
          s2 = reset_buffer s1
      in (frame, s2\<lparr>buffer_active := True\<rparr>))"

text \<open>The statics as the C runtime zero-initialises them, and the globals when \<^verbatim>\<open>main\<close>
  has run \<^verbatim>\<open>reset_buffer(); buffer_active = true;\<close> and starts the scan.\<close>

definition static_init :: globals where
  "static_init = \<lparr>hash_table = replicate HASH_SIZE zero_entry, buffer_hdr = zero_header,
                  buffer_active = False, msg_sequence = 0, hash_entries = 0\<rparr>"

definition main_start :: globals where
  "main_start = (reset_buffer static_init)\<lparr>buffer_active := True\<rparr>"

section \<open>Runs of the program\<close>

text \<open>The arguments of one call of \<^verbatim>\<open>scan_cb\<close>.\<close>

record observation =
  ob_addr :: bt_addr_le
  ob_rssi :: u8
  ob_adv_type :: u8
  ob_buf :: "u8 list"

definition observe :: "globals \<Rightarrow> observation \<Rightarrow> globals option" where
  "observe s ob = scan_cb s (ob_addr ob) (ob_rssi ob) (ob_adv_type ob) (ob_buf ob)"

text \<open>The callbacks of one window, in order of arrival.\<close>

fun observe_all :: "globals \<Rightarrow> observation list \<Rightarrow> globals option" where
  "observe_all s [] = Some s"
| "observe_all s (ob # obs) =
     (case observe s ob of None \<Rightarrow> None | Some s1 \<Rightarrow> observe_all s1 obs)"

text \<open>Consecutive windows: the callbacks of each window, then the timer. The frames are
  returned in the order they are sent.\<close>

fun run_windows ::
  "byte_order \<Rightarrow> globals \<Rightarrow> observation list list \<Rightarrow> (u8 list list \<times> globals) option" where
  "run_windows bo s [] = Some ([], s)"
| "run_windows bo s (obs # rest) =
     (case observe_all s obs of None \<Rightarrow> None
      | Some s1 \<Rightarrow>
          (case run_windows bo (snd (sampling_timer_handler bo s1)) rest of None \<Rightarrow> None
           | Some (frames, s2) \<Rightarrow> Some (fst (sampling_timer_handler bo s1) # frames, s2)))"

text \<open>The globals the program can be in between two callbacks. An address handed to
  \<^verbatim>\<open>scan_cb\<close> is a \<^verbatim>\<open>bt_addr_le_t\<close>, whose \<^verbatim>\<open>a.val\<close> has six bytes. Each call of
  \<^verbatim>\<open>scan_cb\<close> and of \<^verbatim>\<open>sampling_timer_handler\<close> runs to its end before the next one starts:
  a callback that preempts the timer handler in the middle is not a step of this
  relation.\<close>

inductive reachable :: "globals \<Rightarrow> bool" where
  start: "reachable main_start"
| scan: "reachable s \<Longrightarrow> length (a_val a) = 6 \<Longrightarrow> scan_cb s a r t buf = Some s1 \<Longrightarrow> reachable s1"
| tick: "reachable s \<Longrightarrow> reachable (snd (sampling_timer_handler bo s))"


section \<open>The table operation as the specification words it\<close>

text \<open>The slots a probe visits: \<open>home, home+1, ...\<close>, wrapping, step 1, each of the
  \<open>HASH_SIZE\<close> slots once.\<close>

definition probe_sequence :: "nat \<Rightarrow> nat list" where
  "probe_sequence home = map (\<lambda>k. (home + k) mod HASH_SIZE) [0..<HASH_SIZE]"

text \<open>Claiming a free slot: tag it Occupied, store the identifier, zero the record's
  observation counter, increment the unique-entry and the occupied-entry counter.\<close>

definition claim_slot :: "globals \<Rightarrow> bt_addr_le \<Rightarrow> nat \<Rightarrow> globals" where
  "claim_slot s a i =
     s\<lparr>hash_table := (hash_table s)[i :=
          (hash_table s ! i)
            \<lparr>state := ENTRY_OCCUPIED,
             device := (device (hash_table s ! i))\<lparr>addr := a_val a, n_adv := 0\<rparr>\<rparr>],
       hash_entries := hash_entries s + 1,
       buffer_hdr := (buffer_hdr s)\<lparr>n_mac := n_mac (buffer_hdr s) + 1\<rparr>\<rparr>"

text \<open>First fit along the slots still to visit: (a) an Occupied slot with an equal
  identifier is a hit; (b) a slot not Occupied is claimed unless a counter has reached the
  capacity, and then the answer is Full (\<open>None\<close>); (c) no slot left is Full.\<close>

fun find_or_create_from :: "globals \<Rightarrow> bt_addr_le \<Rightarrow> nat list \<Rightarrow> nat option \<times> globals" where
  "find_or_create_from s a [] = (None, s)"
| "find_or_create_from s a (i # slots) =
     (if state (hash_table s ! i) = ENTRY_OCCUPIED \<and> addr (device (hash_table s ! i)) = a_val a
      then (Some i, s)
      else if state (hash_table s ! i) \<noteq> ENTRY_OCCUPIED
      then (if unat (n_mac (buffer_hdr s)) \<ge> HASH_SIZE \<or> unat (hash_entries s) \<ge> HASH_SIZE
            then (None, s)
            else (Some i, claim_slot s a i))
      else find_or_create_from s a slots)"

definition find_or_create :: "globals \<Rightarrow> bt_addr_le \<Rightarrow> nat option \<times> globals" where
  "find_or_create s a = find_or_create_from s a (probe_sequence (unat (hash_mac (a_val a))))"

text \<open>The arrays of the table have their declared sizes.\<close>

definition wf_table :: "hash_entry list \<Rightarrow> bool" where
  "wf_table t \<longleftrightarrow>
     length t = HASH_SIZE \<and>
     list_all (\<lambda>e. length (addr (device e)) = 6 \<and> length (data (device e)) = 31) t"

section \<open>Invariants of the globals\<close>

text \<open>The \<open>k\<close>-th slot on the probe sequence of an identifier.\<close>

definition slot_of :: "u8 list \<Rightarrow> nat \<Rightarrow> nat" where
  "slot_of mac k = (unat (hash_mac mac) + k) mod HASH_SIZE"

text \<open>Every Occupied slot is reached from the home slot of its identifier through Occupied
  slots only, and no two Occupied slots store the same identifier.\<close>

definition probe_inv :: "hash_entry list \<Rightarrow> bool" where
  "probe_inv t \<longleftrightarrow>
     (\<forall>i<HASH_SIZE. state (t ! i) = ENTRY_OCCUPIED \<longrightarrow>
        (\<forall>k<HASH_SIZE. slot_of (addr (device (t ! i))) k = i \<longrightarrow>
           (\<forall>j<k. state (t ! slot_of (addr (device (t ! i))) j) = ENTRY_OCCUPIED)))"

definition distinct_inv :: "hash_entry list \<Rightarrow> bool" where
  "distinct_inv t \<longleftrightarrow>
     (\<forall>i<HASH_SIZE. \<forall>j<HASH_SIZE.
        state (t ! i) = ENTRY_OCCUPIED \<longrightarrow> state (t ! j) = ENTRY_OCCUPIED \<longrightarrow>
        addr (device (t ! i)) = addr (device (t ! j)) \<longrightarrow> i = j)"

text \<open>The number of slots tagged Occupied.\<close>

definition occupied_count :: "hash_entry list \<Rightarrow> nat" where
  "occupied_count t = length (filter (\<lambda>e. state e = ENTRY_OCCUPIED) t)"

text \<open>The payload of a record is zero from index \<open>data_len\<close> on.\<close>

definition zero_filled :: "device_data \<Rightarrow> bool" where
  "zero_filled d \<longleftrightarrow>
     unat (data_len d) \<le> 31 \<and> (\<forall>j<31. unat (data_len d) \<le> j \<longrightarrow> data d ! j = 0)"

definition globals_inv :: "globals \<Rightarrow> bool" where
  "globals_inv s \<longleftrightarrow>
     wf_table (hash_table s) \<and> buffer_active s \<and>
     unat (n_mac (buffer_hdr s)) = occupied_count (hash_table s) \<and>
     unat (hash_entries s) = occupied_count (hash_table s) \<and>
     probe_inv (hash_table s) \<and> distinct_inv (hash_table s) \<and>
     list_all (\<lambda>e. zero_filled (device e)) (hash_table s) \<and>
     header (buffer_hdr s) = replicate UART_HEADER_LENGTH UART_HEADER_MAGIC \<and>
     msg_sequence s = sequence (buffer_hdr s) + 1"

text \<open>The records the table holds for an identifier.\<close>

definition records_of :: "globals \<Rightarrow> u8 list \<Rightarrow> device_data list" where
  "records_of s mac =
     map device (filter (\<lambda>e. state e = ENTRY_OCCUPIED \<and> addr (device e) = mac) (hash_table s))"

text \<open>The record fields \<open>scan_cb\<close> writes for one observation.\<close>

definition merge_observation :: "bt_addr_le \<Rightarrow> u8 \<Rightarrow> u8 \<Rightarrow> u8 list \<Rightarrow> device_data \<Rightarrow> device_data" where
  "merge_observation a r t buf d =
     d\<lparr>addr_type := type_le a, adv_type := t, rssi := r,
       data_len := of_nat (min (length buf) 31),
       data := take (min (length buf) 31) buf @ replicate (31 - min (length buf) 31) 0,
       n_adv := n_adv d + 1\<rparr>"

text \<open>The record an identifier has after an observation is merged into it, with
  observation counter \<open>n\<close>.\<close>

definition recorded :: "bt_addr_le \<Rightarrow> u8 \<Rightarrow> u8 \<Rightarrow> u8 list \<Rightarrow> u8 \<Rightarrow> device_data" where
  "recorded a r t buf n =
     \<lparr>addr = a_val a, addr_type = type_le a, adv_type = t, rssi = r,
      data_len = of_nat (min (length buf) 31),
      data = take (min (length buf) 31) buf @ replicate (31 - min (length buf) 31) 0,
      n_adv = n\<rparr>"

text \<open>The lookup \<open>scan_cb\<close> makes for an event returns \<^verbatim>\<open>NULL\<close>.\<close>

definition lookup_full :: "globals \<Rightarrow> bt_addr_le \<Rightarrow> bool" where
  "lookup_full s a \<longleftrightarrow>
     map_option fst
       (find_or_add_device
          (s\<lparr>buffer_hdr := (buffer_hdr s)\<lparr>n_adv_raw := n_adv_raw (buffer_hdr s) + 1\<rparr>\<rparr>) a)
     = Some None"

text \<open>What one callback does to globals that satisfy the invariant.\<close>

definition step_result ::
  "globals \<Rightarrow> bt_addr_le \<Rightarrow> u8 \<Rightarrow> u8 \<Rightarrow> u8 list \<Rightarrow> globals \<Rightarrow> bool" where
  "step_result s a r t buf s1 \<longleftrightarrow>
     globals_inv s1 \<and> msg_sequence s1 = msg_sequence s \<and>
     sequence (buffer_hdr s1) = sequence (buffer_hdr s) \<and>
     n_adv_raw (buffer_hdr s1) = n_adv_raw (buffer_hdr s) + 1 \<and>
     (\<forall>mac. mac \<noteq> a_val a \<longrightarrow> records_of s1 mac = records_of s mac) \<and>
     (if lookup_full s a then records_of s1 (a_val a) = records_of s (a_val a)
      else records_of s1 (a_val a) =
             [recorded a r t buf (case records_of s (a_val a) of [] \<Rightarrow> 1 | d # ds \<Rightarrow> n_adv d + 1)])"

section \<open>Decoding a frame by the documented layout\<close>

text \<open>The receiver's side, from the byte layout of the specification: a 9-byte header
  (sync pattern at 0..3, sequence at 4, raw event count at 5..6, unique count at 7..8)
  followed by as many 42-byte records as the unique count says (identifier at 0..5,
  identifier kind at 6, event kind at 7, signal strength at 8, payload length at 9,
  payload at 10..40, observation count at 41).\<close>

definition u16_of_bytes :: "byte_order \<Rightarrow> u8 list \<Rightarrow> u16" where
  "u16_of_bytes bo bs =
     (case bo of LittleEndian \<Rightarrow> ucast (bs ! 0) OR push_bit 8 (ucast (bs ! 1))
               | BigEndian \<Rightarrow> ucast (bs ! 1) OR push_bit 8 (ucast (bs ! 0)))"

definition decode_header :: "byte_order \<Rightarrow> u8 list \<Rightarrow> buffer_header" where
  "decode_header bo bs =
     \<lparr>header = take 4 bs, sequence = bs ! 4,
      n_adv_raw = u16_of_bytes bo (take 2 (drop 5 bs)),
      n_mac = u16_of_bytes bo (take 2 (drop 7 bs))\<rparr>"

definition decode_record :: "u8 list \<Rightarrow> device_data" where
  "decode_record bs =
     \<lparr>addr = take 6 bs, addr_type = bs ! 6, adv_type = bs ! 7, rssi = bs ! 8,
      data_len = bs ! 9, data = take 31 (drop 10 bs), n_adv = bs ! 41\<rparr>"

fun decode_records :: "nat \<Rightarrow> u8 list \<Rightarrow> device_data list option" where
  "decode_records 0 bs = (if bs = [] then Some [] else None)"
| "decode_records (Suc n) bs =
     (if length bs < 42 then None
      else case decode_records n (drop 42 bs) of None \<Rightarrow> None
           | Some ds \<Rightarrow> Some (decode_record (take 42 bs) # ds))"

definition decode_frame :: "byte_order \<Rightarrow> u8 list \<Rightarrow> (buffer_header \<times> device_data list) option" where
  "decode_frame bo bs =
     (if length bs < 9 then None
      else case decode_records (unat (n_mac (decode_header bo (take 9 bs)))) (drop 9 bs) of
             None \<Rightarrow> None
           | Some ds \<Rightarrow> Some (decode_header bo (take 9 bs), ds))"

text \<open>The records of the Occupied slots, in slot order.\<close>

definition occupied_records :: "globals \<Rightarrow> device_data list" where
  "occupied_records s = map device (filter (\<lambda>e. state e = ENTRY_OCCUPIED) (hash_table s))"

section \<open>Observations of one identifier\<close>

text \<open>Along the callbacks \<open>obs\<close> run from \<open>s\<close>, no lookup for the identifier \<open>mac\<close>
  returns \<^verbatim>\<open>NULL\<close>.\<close>

fun never_full :: "globals \<Rightarrow> observation list \<Rightarrow> u8 list \<Rightarrow> bool" where
  "never_full s [] mac = True"
| "never_full s (ob # obs) mac =
     ((a_val (ob_addr ob) = mac \<longrightarrow> \<not> lookup_full s (ob_addr ob)) \<and>
      (case observe s ob of None \<Rightarrow> False | Some s1 \<Rightarrow> never_full s1 obs mac))"

text \<open>The observations of the identifier \<open>mac\<close> among \<open>obs\<close>, in order of arrival.\<close>

definition observations_of :: "u8 list \<Rightarrow> observation list \<Rightarrow> observation list" where
  "observations_of mac obs = filter (\<lambda>ob. a_val (ob_addr ob) = mac) obs"

text \<open>The records of an identifier after the observations \<open>L\<close> of it, given its
  records \<open>recs\<close> before them.\<close>

definition merged :: "device_data list \<Rightarrow> observation list \<Rightarrow> device_data list" where
  "merged recs L =
     (if L = [] then recs
      else [recorded (ob_addr (last L)) (ob_rssi (last L)) (ob_adv_type (last L))
              (ob_buf (last L))
              ((case recs of [] \<Rightarrow> 0 | d # ds \<Rightarrow> n_adv d) + of_nat (length L))])"

section \<open>Properties of the hasher\<close>

lemma upt_6: "[0..<6] = [0, 1, 2, 3, 4, 5::nat]"
  by (simp add: upt_rec)

lemma push_bit_5_33: "push_bit 5 h + h = h * (33 :: u32)"
  by (simp add: push_bit_eq_mult)

lemma hash_mac_closed:
  "hash_mac [b0, b1, b2, b3, b4, b5] =
     (((((ucast b0 * 33 + ucast b1) * 33 + ucast b2) * 33 + ucast b3) * 33 + ucast b4) * 33
        + ucast b5) AND HASH_MASK"
  by (simp add: hash_mac_def upt_6 push_bit_5_33)

lemma HASH_MASK_mask: "HASH_MASK = mask 10"
  by (simp add: HASH_MASK_def HASH_SIZE_def mask_eq_exp_minus_1)

lemma unat_and_HASH_MASK: "unat (w AND HASH_MASK) = unat w mod HASH_SIZE"
  by (simp add: HASH_MASK_mask HASH_SIZE_def unsigned_take_bit_eq take_bit_eq_mod unat_mod
        flip: take_bit_eq_mask)

lemma unat_u8_less: "unat (b :: u8) < 256"
  using unsigned_less [of b, where 'a = nat] by simp

lemma unat_ucast_u8_u32: "unat (ucast (b :: u8) :: u32) = unat b"
  using unat_u8_less [of b] by (simp add: unsigned_ucast_eq take_bit_nat_eq_self)

lemma unat_polynomial:
  fixes b0 b1 b2 b3 b4 b5 :: u8
  shows "unat ((((((ucast b0 * 33 + ucast b1) * 33 + ucast b2) * 33 + ucast b3) * 33 + ucast b4) * 33
        + ucast (b5 :: u8)) :: u32) =
     (((((unat b0 * 33 + unat b1) * 33 + unat b2) * 33 + unat b3) * 33 + unat b4) * 33
        + unat b5) mod 2 ^ 32"
  by (simp add: unat_word_ariths mod_simps unat_ucast_u8_u32)

lemma hash_mac_less: "unat (hash_mac mac) < HASH_SIZE"
  by (simp add: hash_mac_def unat_and_HASH_MASK HASH_SIZE_def)

text \<open>Claim C8: for a 6-byte identifier the hasher returns
  (((((b0*33+b1)*33+b2)*33+b3)*33+b4)*33+b5) computed in 32-bit unsigned arithmetic and
  masked with capacity - 1; read as a number, that is the polynomial modulo \<open>2^32\<close> and then
  modulo the capacity, so it is an index below the capacity, and it is a function of the
  six bytes alone.\<close>

theorem hash_mac_polynomial:
  fixes b0 b1 b2 b3 b4 b5 :: u8
  shows "hash_mac [b0, b1, b2, b3, b4, b5] =
     (((((ucast b0 * 33 + ucast b1) * 33 + ucast b2) * 33 + ucast b3) * 33 + ucast b4) * 33
        + ucast b5) AND (of_nat (HASH_SIZE - 1) :: u32)
   \<and> unat (hash_mac [b0, b1, b2, b3, b4, b5]) =
     ((((((unat b0 * 33 + unat b1) * 33 + unat b2) * 33 + unat b3) * 33 + unat b4) * 33
        + unat b5) mod 2 ^ 32) mod HASH_SIZE
   \<and> unat (hash_mac [b0, b1, b2, b3, b4, b5]) < HASH_SIZE"
proof (intro conjI)
  show "hash_mac [b0, b1, b2, b3, b4, b5] =
     (((((ucast b0 * 33 + ucast b1) * 33 + ucast b2) * 33 + ucast b3) * 33 + ucast b4) * 33
        + ucast b5) AND (of_nat (HASH_SIZE - 1) :: u32)"
    using hash_mac_closed [of b0 b1 b2 b3 b4 b5] by (simp only: HASH_MASK_def)
  show "unat (hash_mac [b0, b1, b2, b3, b4, b5]) =
     ((((((unat b0 * 33 + unat b1) * 33 + unat b2) * 33 + unat b3) * 33 + unat b4) * 33
        + unat b5) mod 2 ^ 32) mod HASH_SIZE"
    by (simp only: hash_mac_closed unat_and_HASH_MASK unat_polynomial)
  show "unat (hash_mac [b0, b1, b2, b3, b4, b5]) < HASH_SIZE"
    by (rule hash_mac_less)
qed

section \<open>The probe loop\<close>

lemma MAX_eq: "MAX_DEVICES = HASH_SIZE" by (simp add: MAX_DEVICES_def HASH_SIZE_def)

lemma HASH_SIZE_pos: "0 < HASH_SIZE" by (simp add: HASH_SIZE_def)

lemma unat_next_index:
  "unat idx < HASH_SIZE \<Longrightarrow> unat ((idx + 1) AND HASH_MASK) = (unat idx + 1) mod HASH_SIZE"
  by (simp add: unat_and_HASH_MASK unat_word_ariths HASH_SIZE_def)

lemma slot_step: "((home + k) mod HASH_SIZE + 1) mod HASH_SIZE = (home + Suc k) mod HASH_SIZE"
  by (simp add: mod_simps)

lemma slot_eq_home_iff:
  assumes "home < HASH_SIZE" "k \<le> HASH_SIZE"
  shows "(home + k) mod HASH_SIZE = home \<longleftrightarrow> k = 0 \<or> k = HASH_SIZE"
proof
  assume h: "(home + k) mod HASH_SIZE = home"
  show "k = 0 \<or> k = HASH_SIZE"
  proof (cases "home + k < HASH_SIZE")
    case True
    with h show ?thesis by simp
  next
    case False
    then have "(home + k) mod HASH_SIZE = home + k - HASH_SIZE"
      using assms by (simp add: mod_if)
    with h False assms show ?thesis by simp
  qed
next
  assume "k = 0 \<or> k = HASH_SIZE"
  with assms show "(home + k) mod HASH_SIZE = home" by auto
qed

lemma find_or_add_device_loop_eq:
  assumes wf: "wf_table (hash_table s)" and la: "length (a_val a) = 6"
    and orig: "unat orig < HASH_SIZE"
  shows "k < HASH_SIZE \<Longrightarrow> unat idx = (unat orig + k) mod HASH_SIZE \<Longrightarrow>
     find_or_add_device_loop s a orig idx =
       Some (find_or_create_from s a (map (\<lambda>k. (unat orig + k) mod HASH_SIZE) [k..<HASH_SIZE]))"
proof (induction "HASH_SIZE - k" arbitrary: k idx)
  case 0
  then show ?case by simp
next
  case (Suc n)
  let ?i = "unat idx"
  have ilt: "?i < HASH_SIZE" using Suc.prems HASH_SIZE_pos by simp
  have len6: "length (addr (device (hash_table s ! ?i))) = 6"
    using wf ilt by (simp add: wf_table_def list_all_length)
  have up: "[k..<HASH_SIZE] = k # [Suc k..<HASH_SIZE]"
    using Suc.prems by (simp add: upt_conv_Cons)
  have nxt: "unat ((idx + 1) AND HASH_MASK) = (unat orig + Suc k) mod HASH_SIZE"
    using ilt Suc.prems by (simp add: unat_next_index mod_Suc_eq)
  have neq: "((idx + 1) AND HASH_MASK \<noteq> orig) \<longleftrightarrow> Suc k \<noteq> HASH_SIZE"
    using slot_eq_home_iff [OF orig, of "Suc k"] Suc.prems nxt
    by (auto simp: word_unat_eq_iff)
  show ?case
  proof (cases "Suc k = HASH_SIZE")
    case True
    then show ?thesis
      using neq len6 la Suc.prems
      by (subst find_or_add_device_loop.simps)
         (simp add: up MAX_eq claim_slot_def)
  next
    case False
    then have "find_or_add_device_loop s a orig ((idx + 1) AND HASH_MASK) =
       Some (find_or_create_from s a (map (\<lambda>k. (unat orig + k) mod HASH_SIZE) [Suc k..<HASH_SIZE]))"
      using Suc.hyps Suc.prems nxt by (intro Suc.hyps(1)) auto
    then show ?thesis
      using neq len6 la Suc.prems False
      by (subst find_or_add_device_loop.simps)
         (simp add: up MAX_eq claim_slot_def)
  qed
qed

lemma probe_sequence_upt:
  "probe_sequence home = map (\<lambda>k. (home + k) mod HASH_SIZE) [0..<HASH_SIZE]"
  by (simp add: probe_sequence_def)

lemma find_or_add_device_eq:
  assumes "wf_table (hash_table s)" and "length (a_val a) = 6"
  shows "find_or_add_device s a = Some (find_or_create s a)"
  unfolding find_or_add_device_def find_or_create_def probe_sequence_upt
  by (rule find_or_add_device_loop_eq [OF assms hash_mac_less HASH_SIZE_pos])
     (simp add: mod_less [OF hash_mac_less])

lemma wf_table_replicate: "wf_table (replicate HASH_SIZE zero_entry)"
  by (simp add: wf_table_def list_all_length zero_entry_def zero_device_def)

lemma hash_table_reset_buffer: "hash_table (reset_buffer s) = replicate HASH_SIZE zero_entry"
  by (simp add: reset_buffer_def Let_def)

lemma hash_table_main_start: "hash_table main_start = replicate HASH_SIZE zero_entry"
  by (simp add: main_start_def hash_table_reset_buffer)

text \<open>Claim C2: from any table whose arrays have their declared sizes, and for any 6-byte
  identifier, \<open>find_or_add_device\<close> returns, and returns what the specification's
  \<open>find_or_create\<close> describes: it probes linearly (step 1, wrapping) from the hashed home
  slot; the first Occupied slot with an equal identifier is returned with the globals
  unchanged; the first slot that is not Occupied gives Full when the unique-entry or the
  occupied-entry counter has reached the capacity, and is otherwise tagged Occupied, given
  the identifier and a zero observation counter, with both counters incremented; a probe
  that has visited all slots gives Full.\<close>

theorem find_or_add_device_probes:
  assumes "wf_table (hash_table s)" and "length (a_val a) = 6"
  shows "find_or_add_device s a = Some (find_or_create s a)"
  using assms by (rule find_or_add_device_eq)

theorem find_or_add_device_probes_witness:
  "wf_table (hash_table main_start)
   \<and> length (a_val \<lparr>type_le = 1, a_val = [1, 2, 3, 4, 5, 6]\<rparr>) = 6
   \<and> find_or_add_device main_start \<lparr>type_le = 1, a_val = [1, 2, 3, 4, 5, 6]\<rparr> =
       Some (find_or_create main_start \<lparr>type_le = 1, a_val = [1, 2, 3, 4, 5, 6]\<rparr>)"
proof -
  have w: "wf_table (hash_table main_start)"
    by (simp add: hash_table_main_start wf_table_replicate)
  have l: "length (a_val \<lparr>type_le = 1, a_val = [1, 2, 3, 4, 5, 6]\<rparr>) = 6"
    by simp
  show ?thesis
    using w l find_or_add_device_probes [OF w l] by simp
qed

section \<open>A failed lookup changes nothing\<close>

lemma loop_full_unchanged:
  assumes "find_or_add_device_loop s a orig idx = Some r"
  shows "fst r = None \<longrightarrow> snd r = s"
  by (rule find_or_add_device_loop.raw_induct
        [where P = "\<lambda>s a orig idx r. fst r = None \<longrightarrow> snd r = s", OF _ assms])
     (auto split: if_splits)

lemma find_or_add_device_full:
  "find_or_add_device s a = Some (None, s1) \<Longrightarrow> s1 = s"
  using loop_full_unchanged [of s a "hash_mac (a_val a)" "hash_mac (a_val a)" "(None, s1)"]
  by (simp add: find_or_add_device_def)

lemma find_or_add_device_home:
  assumes "state (hash_table s ! unat (hash_mac (a_val a))) \<noteq> ENTRY_OCCUPIED"
  shows "find_or_add_device s a =
     Some (if unat (n_mac (buffer_hdr s)) \<ge> MAX_DEVICES \<or> unat (hash_entries s) \<ge> MAX_DEVICES
           then (None, s)
           else (Some (unat (hash_mac (a_val a))),
              s\<lparr>hash_table := (hash_table s)[unat (hash_mac (a_val a)) :=
                   (hash_table s ! unat (hash_mac (a_val a)))
                     \<lparr>state := ENTRY_OCCUPIED,
                      device := (device (hash_table s ! unat (hash_mac (a_val a))))
                        \<lparr>addr := take 6 (a_val a) @
                                 drop 6 (addr (device (hash_table s ! unat (hash_mac (a_val a))))),
                         n_adv := 0\<rparr>\<rparr>],
                hash_entries := hash_entries s + 1,
                buffer_hdr := (buffer_hdr s)\<lparr>n_mac := n_mac (buffer_hdr s) + 1\<rparr>\<rparr>))"
  unfolding find_or_add_device_def
  using assms by (subst find_or_add_device_loop.simps) simp

text \<open>Claim C9: whenever \<open>find_or_add_device\<close> returns \<^verbatim>\<open>NULL\<close> (Full), be it at a free slot
  with a counter at the capacity or after the probe has wrapped around the whole table,
  the globals it returns are the globals it was given: no slot's tag or record and neither
  counter has changed.\<close>

theorem find_or_add_device_full_unchanged:
  "find_or_add_device s a = Some (None, s1) \<Longrightarrow> s1 = s"
  by (rule find_or_add_device_full)

theorem find_or_add_device_full_unchanged_witness:
  "find_or_add_device
      (main_start\<lparr>buffer_hdr := (buffer_hdr main_start)\<lparr>n_mac := 1024\<rparr>\<rparr>)
      \<lparr>type_le = 1, a_val = [1, 2, 3, 4, 5, 6]\<rparr> =
     Some (None, main_start\<lparr>buffer_hdr := (buffer_hdr main_start)\<lparr>n_mac := 1024\<rparr>\<rparr>)
   \<and> main_start\<lparr>buffer_hdr := (buffer_hdr main_start)\<lparr>n_mac := 1024\<rparr>\<rparr> =
     main_start\<lparr>buffer_hdr := (buffer_hdr main_start)\<lparr>n_mac := 1024\<rparr>\<rparr>"
proof -
  let ?s = "main_start\<lparr>buffer_hdr := (buffer_hdr main_start)\<lparr>n_mac := 1024\<rparr>\<rparr>"
  let ?a = "\<lparr>type_le = 1, a_val = [1, 2, 3, 4, 5, 6]\<rparr>"
  have "state (hash_table ?s ! unat (hash_mac (a_val ?a))) \<noteq> ENTRY_OCCUPIED"
    using hash_mac_less [of "a_val ?a"]
    by (simp add: hash_table_main_start zero_entry_def del: bt_addr_le.simps)
  then have h: "find_or_add_device ?s ?a = Some (None, ?s)"
    by (simp add: find_or_add_device_home MAX_DEVICES_def del: bt_addr_le.simps)
  show ?thesis
    using h find_or_add_device_full_unchanged [OF h] by simp
qed

section \<open>The steps of the recorder\<close>

lemma scan_cb_eq:
  assumes wf: "wf_table (hash_table s)" and la: "length (a_val a) = 6"
  shows "scan_cb s a r t buf =
     (if \<not> buffer_active s then Some s
      else case find_or_create
                  (s\<lparr>buffer_hdr := (buffer_hdr s)\<lparr>n_adv_raw := n_adv_raw (buffer_hdr s) + 1\<rparr>\<rparr>) a
        of (None, s1) \<Rightarrow>
             Some (s\<lparr>buffer_hdr := (buffer_hdr s)\<lparr>n_adv_raw := n_adv_raw (buffer_hdr s) + 1\<rparr>\<rparr>)
         | (Some i, s1) \<Rightarrow>
             Some (s1\<lparr>hash_table := (hash_table s1)[i := (hash_table s1 ! i)
                 \<lparr>device := (device (hash_table s1 ! i))
                     \<lparr>addr_type := type_le a, adv_type := t, rssi := r,
                      data_len := of_nat (min (length buf) 31),
                      data := take (min (length buf) 31) buf @
                              replicate (31 - min (length buf) 31) 0,
                      n_adv := n_adv (device (hash_table s1 ! i)) + 1\<rparr>\<rparr>]\<rparr>))"
proof -
  let ?s0 = "s\<lparr>buffer_hdr := (buffer_hdr s)\<lparr>n_adv_raw := n_adv_raw (buffer_hdr s) + 1\<rparr>\<rparr>"
  have wf0: "wf_table (hash_table ?s0)" using wf by simp
  have eq: "find_or_add_device ?s0 a = Some (find_or_create ?s0 a)"
    by (rule find_or_add_device_eq [OF wf0 la])
  have full: "\<And>s1. find_or_create ?s0 a = (None, s1) \<Longrightarrow> s1 = ?s0"
    using eq find_or_add_device_full [of ?s0 a] by simp
  have n: "unat (of_nat (min (length buf) 31) :: u8) = min (length buf) 31"
    by (simp add: unat_of_nat min_def)
  show ?thesis
    unfolding scan_cb_def eq
    by (auto simp: Let_def n split: prod.splits option.splits dest: full)
qed

text \<open>Claim C3: an event that arrives while \<open>buffer_active\<close> is false leaves the globals
  as they are. Otherwise \<open>n_adv_raw\<close> is incremented first; when the lookup is Full the
  event changes nothing else; when it yields a record, \<open>addr_type\<close>, \<open>adv_type\<close> and \<open>rssi\<close>
  are overwritten, \<open>data_len\<close> becomes the minimum of the payload length and 31, \<open>data\<close>
  becomes that many payload bytes followed by zeros up to 31 bytes, and \<open>n_adv\<close> is
  incremented. In every case the callback returns.\<close>

theorem scan_cb_steps:
  assumes wf: "wf_table (hash_table s)" and la: "length (a_val a) = 6"
  shows "scan_cb s a r t buf =
     (if \<not> buffer_active s then Some s
      else case find_or_create
                  (s\<lparr>buffer_hdr := (buffer_hdr s)\<lparr>n_adv_raw := n_adv_raw (buffer_hdr s) + 1\<rparr>\<rparr>) a
        of (None, s1) \<Rightarrow>
             Some (s\<lparr>buffer_hdr := (buffer_hdr s)\<lparr>n_adv_raw := n_adv_raw (buffer_hdr s) + 1\<rparr>\<rparr>)
         | (Some i, s1) \<Rightarrow>
             Some (s1\<lparr>hash_table := (hash_table s1)[i := (hash_table s1 ! i)
                 \<lparr>device := (device (hash_table s1 ! i))
                     \<lparr>addr_type := type_le a, adv_type := t, rssi := r,
                      data_len := of_nat (min (length buf) 31),
                      data := take (min (length buf) 31) buf @
                              replicate (31 - min (length buf) 31) 0,
                      n_adv := n_adv (device (hash_table s1 ! i)) + 1\<rparr>\<rparr>]\<rparr>))"
  using assms by (rule scan_cb_eq)

theorem scan_cb_steps_witness:
  "wf_table (hash_table main_start)
   \<and> length (a_val \<lparr>type_le = 1, a_val = [1, 2, 3, 4, 5, 6]\<rparr>) = 6
   \<and> scan_cb main_start \<lparr>type_le = 1, a_val = [1, 2, 3, 4, 5, 6]\<rparr> 200 3 [2, 1, 6] =
     (if \<not> buffer_active main_start then Some main_start
      else case find_or_create
                  (main_start\<lparr>buffer_hdr := (buffer_hdr main_start)
                      \<lparr>n_adv_raw := n_adv_raw (buffer_hdr main_start) + 1\<rparr>\<rparr>)
                  \<lparr>type_le = 1, a_val = [1, 2, 3, 4, 5, 6]\<rparr>
        of (None, s1) \<Rightarrow>
             Some (main_start\<lparr>buffer_hdr := (buffer_hdr main_start)
                      \<lparr>n_adv_raw := n_adv_raw (buffer_hdr main_start) + 1\<rparr>\<rparr>)
         | (Some i, s1) \<Rightarrow>
             Some (s1\<lparr>hash_table := (hash_table s1)[i := (hash_table s1 ! i)
                 \<lparr>device := (device (hash_table s1 ! i))
                     \<lparr>addr_type := type_le \<lparr>type_le = 1, a_val = [1, 2, 3, 4, 5, 6]\<rparr>,
                      adv_type := 3, rssi := 200,
                      data_len := of_nat (min (length [2, 1, 6 :: u8]) 31),
                      data := take (min (length [2, 1, 6 :: u8]) 31) [2, 1, 6] @
                              replicate (31 - min (length [2, 1, 6 :: u8]) 31) 0,
                      n_adv := n_adv (device (hash_table s1 ! i)) + 1\<rparr>\<rparr>]\<rparr>))"
proof -
  have w: "wf_table (hash_table main_start)"
    by (simp add: hash_table_main_start wf_table_replicate)
  have l: "length (a_val \<lparr>type_le = 1, a_val = [1, 2, 3, 4, 5, 6]\<rparr>) = 6"
    by simp
  show ?thesis
    using w l scan_cb_steps [OF w l, of 200 3 "[2, 1, 6]"] by (intro conjI)
qed

section \<open>Lookup results and the table invariants\<close>

lemma find_or_create_from_cases:
  "find_or_create_from s a xs = (None, s) \<or>
   (\<exists>k<length xs.
      (\<forall>j<k. state (hash_table s ! (xs ! j)) = ENTRY_OCCUPIED \<and>
              addr (device (hash_table s ! (xs ! j))) \<noteq> a_val a) \<and>
      ((state (hash_table s ! (xs ! k)) = ENTRY_OCCUPIED \<and>
        addr (device (hash_table s ! (xs ! k))) = a_val a \<and>
        find_or_create_from s a xs = (Some (xs ! k), s)) \<or>
       (state (hash_table s ! (xs ! k)) \<noteq> ENTRY_OCCUPIED \<and>
        unat (n_mac (buffer_hdr s)) < HASH_SIZE \<and> unat (hash_entries s) < HASH_SIZE \<and>
        find_or_create_from s a xs = (Some (xs ! k), claim_slot s a (xs ! k)))))"
proof (induction xs)
  case Nil
  then show ?case by simp
next
  case (Cons i xs)
  show ?case
  proof (cases "state (hash_table s ! i) = ENTRY_OCCUPIED \<and>
                addr (device (hash_table s ! i)) \<noteq> a_val a")
    case False
    consider (hit) "state (hash_table s ! i) = ENTRY_OCCUPIED"
        "addr (device (hash_table s ! i)) = a_val a"
      | (full) "state (hash_table s ! i) \<noteq> ENTRY_OCCUPIED"
        "unat (n_mac (buffer_hdr s)) \<ge> HASH_SIZE \<or> unat (hash_entries s) \<ge> HASH_SIZE"
      | (new) "state (hash_table s ! i) \<noteq> ENTRY_OCCUPIED"
        "unat (n_mac (buffer_hdr s)) < HASH_SIZE" "unat (hash_entries s) < HASH_SIZE"
      using False by fastforce
    then show ?thesis
    proof cases
      case hit
      then show ?thesis
        by (intro disjI2 exI [of _ 0]) simp
    next
      case full
      then show ?thesis
        by (intro disjI1) auto
    next
      case new
      then show ?thesis
        by (intro disjI2 exI [of _ 0]) simp
    qed
  next
    case True
    then have step: "find_or_create_from s a (i # xs) = find_or_create_from s a xs"
      by simp
    from Cons.IH consider
      (none) "find_or_create_from s a xs = (None, s)"
      | (stop) k where "k < length xs"
        "\<forall>j<k. state (hash_table s ! (xs ! j)) = ENTRY_OCCUPIED \<and>
              addr (device (hash_table s ! (xs ! j))) \<noteq> a_val a"
        "(state (hash_table s ! (xs ! k)) = ENTRY_OCCUPIED \<and>
        addr (device (hash_table s ! (xs ! k))) = a_val a \<and>
        find_or_create_from s a xs = (Some (xs ! k), s)) \<or>
       (state (hash_table s ! (xs ! k)) \<noteq> ENTRY_OCCUPIED \<and>
        unat (n_mac (buffer_hdr s)) < HASH_SIZE \<and> unat (hash_entries s) < HASH_SIZE \<and>
        find_or_create_from s a xs = (Some (xs ! k), claim_slot s a (xs ! k)))"
      by blast
    then show ?thesis
    proof cases
      case none
      then show ?thesis unfolding step by simp
    next
      case stop
      have pre': "\<forall>j<Suc k. state (hash_table s ! ((i # xs) ! j)) = ENTRY_OCCUPIED \<and>
              addr (device (hash_table s ! ((i # xs) ! j))) \<noteq> a_val a"
        using True stop(2) by (auto simp: less_Suc_eq_0_disj)
      show ?thesis
        using stop(1,3) pre' unfolding step
        by (intro disjI2 exI [of _ "Suc k"]) simp
    qed
  qed
qed

lemma slot_of_less: "slot_of mac k < HASH_SIZE"
  by (simp add: slot_of_def HASH_SIZE_pos)

lemma mod_window_inj:
  fixes p q h n :: nat
  assumes "p \<le> q" "q < n" "(h + p) mod n = (h + q) mod n"
  shows "p = q"
proof (rule ccontr)
  assume ne: "p \<noteq> q"
  have "n dvd (h + q) - (h + p)"
    using mod_eq_dvd_iff_nat [of "h + p" "h + q" n] assms by simp
  then have "n dvd q - p" by simp
  moreover have "0 < q - p" using ne assms by simp
  ultimately have "n \<le> q - p" by (rule dvd_imp_le)
  then show False using assms by simp
qed

lemma slot_of_inj:
  assumes "j < HASH_SIZE" "k < HASH_SIZE" "slot_of mac j = slot_of mac k"
  shows "j = k"
proof (cases "j \<le> k")
  case True
  then show ?thesis
    using assms mod_window_inj [of j k HASH_SIZE "unat (hash_mac mac)"] by (simp add: slot_of_def)
next
  case False
  then show ?thesis
    using assms mod_window_inj [of k j HASH_SIZE "unat (hash_mac mac)"] by (simp add: slot_of_def)
qed

lemma slot_of_surj:
  assumes "i < HASH_SIZE"
  shows "\<exists>k<HASH_SIZE. slot_of mac k = i"
proof -
  let ?h = "unat (hash_mac mac)"
  have h: "?h < HASH_SIZE" by (rule hash_mac_less)
  show ?thesis
  proof (cases "?h \<le> i")
    case True
    then have "slot_of mac (i - ?h) = i" using assms by (simp add: slot_of_def)
    then show ?thesis using assms by (intro exI [of _ "i - ?h"]) simp
  next
    case False
    then have "?h + (i + HASH_SIZE - ?h) = i + HASH_SIZE" using h by simp
    then have "slot_of mac (i + HASH_SIZE - ?h) = i"
      using assms unfolding slot_of_def by simp
    then show ?thesis using assms h False by (intro exI [of _ "i + HASH_SIZE - ?h"]) simp
  qed
qed

lemma length_probe_sequence: "length (probe_sequence h) = HASH_SIZE"
  by (simp add: probe_sequence_def)

lemma probe_sequence_nth:
  "k < HASH_SIZE \<Longrightarrow> probe_sequence (unat (hash_mac mac)) ! k = slot_of mac k"
  by (simp add: probe_sequence_def slot_of_def)

lemma find_or_create_cases:
  obtains (Full) "find_or_create s a = (None, s)"
  | (Hit) i where "i < HASH_SIZE" "state (hash_table s ! i) = ENTRY_OCCUPIED"
      "addr (device (hash_table s ! i)) = a_val a" "find_or_create s a = (Some i, s)"
  | (New) k where "k < HASH_SIZE"
      "\<forall>j<k. state (hash_table s ! slot_of (a_val a) j) = ENTRY_OCCUPIED \<and>
              addr (device (hash_table s ! slot_of (a_val a) j)) \<noteq> a_val a"
      "state (hash_table s ! slot_of (a_val a) k) \<noteq> ENTRY_OCCUPIED"
      "unat (n_mac (buffer_hdr s)) < HASH_SIZE" "unat (hash_entries s) < HASH_SIZE"
      "find_or_create s a =
         (Some (slot_of (a_val a) k), claim_slot s a (slot_of (a_val a) k))"
proof -
  let ?xs = "probe_sequence (unat (hash_mac (a_val a)))"
  have slots: "?xs ! j = slot_of (a_val a) j" if "j < HASH_SIZE" for j
    using that by (rule probe_sequence_nth)
  have foc: "find_or_create s a = find_or_create_from s a ?xs"
    by (simp only: find_or_create_def)
  from find_or_create_from_cases [of s a ?xs] show thesis
    unfolding length_probe_sequence
  proof (elim disjE exE conjE)
    assume "find_or_create_from s a ?xs = (None, s)"
    then show thesis by (intro Full) (simp only: foc)
  next
    fix k
    assume k: "k < HASH_SIZE"
      and "state (hash_table s ! (?xs ! k)) = ENTRY_OCCUPIED"
      and "addr (device (hash_table s ! (?xs ! k))) = a_val a"
      and "find_or_create_from s a ?xs = (Some (?xs ! k), s)"
    then show thesis
      by (intro Hit [of "slot_of (a_val a) k"]) (simp_all only: foc slots [OF k] slot_of_less)
  next
    fix k
    assume k: "k < HASH_SIZE"
      and pre: "\<forall>j<k. state (hash_table s ! (?xs ! j)) = ENTRY_OCCUPIED \<and>
              addr (device (hash_table s ! (?xs ! j))) \<noteq> a_val a"
      and free: "state (hash_table s ! (?xs ! k)) \<noteq> ENTRY_OCCUPIED"
      and c1: "unat (n_mac (buffer_hdr s)) < HASH_SIZE"
      and c2: "unat (hash_entries s) < HASH_SIZE"
      and res: "find_or_create_from s a ?xs = (Some (?xs ! k), claim_slot s a (?xs ! k))"
    have pre': "\<forall>j<k. state (hash_table s ! slot_of (a_val a) j) = ENTRY_OCCUPIED \<and>
              addr (device (hash_table s ! slot_of (a_val a) j)) \<noteq> a_val a"
    proof (intro allI impI)
      fix j assume "j < k"
      then have "j < HASH_SIZE" using k by simp
      from slots [OF this] pre \<open>j < k\<close>
      show "state (hash_table s ! slot_of (a_val a) j) = ENTRY_OCCUPIED \<and>
              addr (device (hash_table s ! slot_of (a_val a) j)) \<noteq> a_val a"
        by metis
    qed
    have free': "state (hash_table s ! slot_of (a_val a) k) \<noteq> ENTRY_OCCUPIED"
      using free unfolding slots [OF k] .
    have res': "find_or_create s a =
        (Some (slot_of (a_val a) k), claim_slot s a (slot_of (a_val a) k))"
      using res unfolding foc slots [OF k] .
    show thesis
      by (rule New [OF k pre' free' c1 c2 res'])
  qed
qed

lemma probe_invD:
  assumes "probe_inv t" "i < HASH_SIZE" "state (t ! i) = ENTRY_OCCUPIED"
    "k < HASH_SIZE" "slot_of (addr (device (t ! i))) k = i" "j < k"
  shows "state (t ! slot_of (addr (device (t ! i))) j) = ENTRY_OCCUPIED"
proof -
  from assms(1) have "\<forall>i<HASH_SIZE. state (t ! i) = ENTRY_OCCUPIED \<longrightarrow>
        (\<forall>k<HASH_SIZE. slot_of (addr (device (t ! i))) k = i \<longrightarrow>
           (\<forall>j<k. state (t ! slot_of (addr (device (t ! i))) j) = ENTRY_OCCUPIED))"
    by (simp only: probe_inv_def)
  with assms(2-6) show ?thesis by blast
qed

lemma new_slot_absent:
  assumes pi: "probe_inv t" and k: "k < HASH_SIZE"
    and pre: "\<forall>j<k. state (t ! slot_of mac j) = ENTRY_OCCUPIED \<and>
                     addr (device (t ! slot_of mac j)) \<noteq> mac"
    and free: "state (t ! slot_of mac k) \<noteq> ENTRY_OCCUPIED"
    and m: "m < HASH_SIZE" and occ: "state (t ! m) = ENTRY_OCCUPIED"
  shows "addr (device (t ! m)) \<noteq> mac"
proof
  assume eq: "addr (device (t ! m)) = mac"
  obtain km where km: "km < HASH_SIZE" "slot_of mac km = m"
    using slot_of_surj [OF m] by blast
  consider "km < k" | "km = k" | "k < km" by linarith
  then show False
  proof cases
    case 1
    with pre have "addr (device (t ! slot_of mac km)) \<noteq> mac" by blast
    then show False using km(2) eq by simp
  next
    case 2
    then show False using free km(2) occ by simp
  next
    case 3
    have "slot_of (addr (device (t ! m))) km = m" using km(2) eq by simp
    from probe_invD [OF pi m occ km(1) this 3]
    have "state (t ! slot_of mac k) = ENTRY_OCCUPIED" using eq by simp
    then show False using free by simp
  qed
qed

subsection \<open>Filtering an array after one element is replaced\<close>

lemma filter_split_at:
  assumes "i < length xs"
  shows "filter P xs = filter P (take i xs) @ filter P [xs ! i] @ filter P (drop (Suc i) xs)"
proof -
  have "filter P xs = filter P (take i xs @ xs ! i # drop (Suc i) xs)"
    using id_take_nth_drop [OF assms] by simp
  then show ?thesis by simp
qed

lemma filter_update_split:
  assumes "i < length xs"
  shows "filter P (xs[i := e]) =
     filter P (take i xs) @ filter P [e] @ filter P (drop (Suc i) xs)"
  by (simp add: upd_conv_take_nth_drop [OF assms])

lemma length_filter_update_same:
  assumes "i < length xs" "P e = P (xs ! i)"
  shows "length (filter P (xs[i := e])) = length (filter P xs)"
  using assms(2) by (simp add: filter_update_split [OF assms(1)] filter_split_at [OF assms(1), of P])

lemma length_filter_update_new:
  assumes "i < length xs" "\<not> P (xs ! i)" "P e"
  shows "length (filter P (xs[i := e])) = Suc (length (filter P xs))"
  using assms(2,3)
  by (simp add: filter_update_split [OF assms(1)] filter_split_at [OF assms(1), of P])

lemma filter_update_irrelevant:
  assumes "i < length xs" "\<not> Q (xs ! i)" "\<not> Q e"
  shows "filter Q (xs[i := e]) = filter Q xs"
  using assms(2,3)
  by (simp add: filter_update_split [OF assms(1)] filter_split_at [OF assms(1), of Q])

lemma filter_none:
  assumes "\<forall>j<length xs. \<not> Q (xs ! j)"
  shows "filter Q xs = []"
  using assms by (auto simp: filter_empty_conv in_set_conv_nth)

lemma filter_unique:
  assumes i: "i < length xs" and q: "Q (xs ! i)"
    and u: "\<forall>j<length xs. Q (xs ! j) \<longrightarrow> j = i"
  shows "filter Q xs = [xs ! i]"
proof -
  have a: "filter Q (take i xs) = []"
  proof (rule filter_none, intro allI impI)
    fix j assume "j < length (take i xs)"
    then have j: "j < i" "j < length xs" using i by simp_all
    then have "\<not> Q (xs ! j)" using u by auto
    then show "\<not> Q (take i xs ! j)" using j by simp
  qed
  have b: "filter Q (drop (Suc i) xs) = []"
  proof (rule filter_none, intro allI impI)
    fix j assume "j < length (drop (Suc i) xs)"
    then have j: "Suc i + j < length xs" by simp
    then have "\<not> Q (xs ! (Suc i + j))" using u by auto
    then show "\<not> Q (drop (Suc i) xs ! j)" using j by simp
  qed
  show ?thesis
    using q by (simp add: filter_split_at [OF i, of Q] a b)
qed

subsection \<open>Replacing one slot of the table\<close>

lemma wf_table_update:
  assumes "wf_table t" "length (addr (device e)) = 6" "length (data (device e)) = 31"
  shows "wf_table (t[i := e])"
  using assms by (cases "i < length t") (auto simp: wf_table_def list_all_length nth_list_update)

lemma zero_filled_update:
  assumes "list_all (\<lambda>e. zero_filled (device e)) t" "zero_filled (device e)"
  shows "list_all (\<lambda>e. zero_filled (device e)) (t[i := e])"
  using assms by (cases "i < length t") (auto simp: list_all_length nth_list_update)

lemma probe_inv_same_keys:
  assumes "probe_inv t"
    and "\<forall>j. state (t' ! j) = state (t ! j)"
    and "\<forall>j. addr (device (t' ! j)) = addr (device (t ! j))"
  shows "probe_inv t'"
  using assms by (simp add: probe_inv_def)

lemma distinct_inv_same_keys:
  assumes "distinct_inv t"
    and "\<forall>j. state (t' ! j) = state (t ! j)"
    and "\<forall>j. addr (device (t' ! j)) = addr (device (t ! j))"
  shows "distinct_inv t'"
  using assms by (simp add: distinct_inv_def)

lemma same_keys_update:
  assumes "i < length t" "state e = state (t ! i)" "addr (device e) = addr (device (t ! i))"
  shows "\<forall>j. state (t[i := e] ! j) = state (t ! j)"
    and "\<forall>j. addr (device (t[i := e] ! j)) = addr (device (t ! j))"
  using assms by (simp_all add: nth_list_update)

lemma occupied_count_same:
  assumes "i < length t" "state e = state (t ! i)"
  shows "occupied_count (t[i := e]) = occupied_count t"
  unfolding occupied_count_def
  by (rule length_filter_update_same [OF assms(1)]) (simp add: assms(2))

lemma occupied_count_new:
  assumes "i < length t" "state (t ! i) \<noteq> ENTRY_OCCUPIED" "state e = ENTRY_OCCUPIED"
  shows "occupied_count (t[i := e]) = Suc (occupied_count t)"
  unfolding occupied_count_def
  by (rule length_filter_update_new [OF assms(1)]) (simp_all add: assms(2,3))

lemma occupied_count_le: "occupied_count t \<le> length t"
  by (simp add: occupied_count_def)

lemma probe_inv_new:
  assumes pi: "probe_inv t" and len: "length t = HASH_SIZE" and k: "k < HASH_SIZE"
    and pre: "\<forall>j<k. state (t ! slot_of mac j) = ENTRY_OCCUPIED"
    and e: "state e = ENTRY_OCCUPIED" "addr (device e) = mac"
  shows "probe_inv (t[slot_of mac k := e])"
  unfolding probe_inv_def
proof (intro allI impI)
  fix i k' j
  let ?t = "t[slot_of mac k := e]"
  assume i: "i < HASH_SIZE" and occ: "state (?t ! i) = ENTRY_OCCUPIED"
    and k': "k' < HASH_SIZE" and sl: "slot_of (addr (device (?t ! i))) k' = i" and j: "j < k'"
  have mono: "state (?t ! x) = ENTRY_OCCUPIED" if "state (t ! x) = ENTRY_OCCUPIED" for x
    using that e(1) by (cases "x = slot_of mac k") (simp_all add: nth_list_update len slot_of_less)
  show "state (?t ! slot_of (addr (device (?t ! i))) j) = ENTRY_OCCUPIED"
  proof (cases "i = slot_of mac k")
    case True
    then have ad: "addr (device (?t ! i)) = mac"
      using e(2) by (simp add: len slot_of_less)
    have "k' = k"
      using sl True k k' unfolding ad by (intro slot_of_inj [of k' k mac]) simp_all
    then have "state (t ! slot_of mac j) = ENTRY_OCCUPIED" using pre j by simp
    then show ?thesis unfolding ad by (rule mono)
  next
    case False
    then have same: "?t ! i = t ! i" by simp
    have "state (t ! slot_of (addr (device (t ! i))) j) = ENTRY_OCCUPIED"
      using probe_invD [OF pi i _ k' _ j] occ sl unfolding same by simp
    then show ?thesis unfolding same by (rule mono)
  qed
qed

lemma distinct_inv_new:
  assumes di: "distinct_inv t" and len: "length t = HASH_SIZE" and i: "i < HASH_SIZE"
    and absent: "\<forall>m<HASH_SIZE. state (t ! m) = ENTRY_OCCUPIED \<longrightarrow> addr (device (t ! m)) \<noteq> mac"
    and e: "addr (device e) = mac"
  shows "distinct_inv (t[i := e])"
  unfolding distinct_inv_def
proof (intro allI impI)
  fix p q
  let ?t = "t[i := e]"
  assume p: "p < HASH_SIZE" and q: "q < HASH_SIZE"
    and op: "state (?t ! p) = ENTRY_OCCUPIED" and oq: "state (?t ! q) = ENTRY_OCCUPIED"
    and eq: "addr (device (?t ! p)) = addr (device (?t ! q))"
  have ti: "?t ! i = e" using i len by simp
  consider "p = i" "q = i" | "p = i" "q \<noteq> i" | "p \<noteq> i" "q = i" | "p \<noteq> i" "q \<noteq> i"
    by blast
  then show "p = q"
  proof cases
    case 1
    then show ?thesis by simp
  next
    case 2
    then have "?t ! q = t ! q" by simp
    then have "state (t ! q) = ENTRY_OCCUPIED" "addr (device (t ! q)) = mac"
      using oq eq 2(1) ti e by simp_all
    then show ?thesis using absent q by blast
  next
    case 3
    then have "?t ! p = t ! p" by simp
    then have "state (t ! p) = ENTRY_OCCUPIED" "addr (device (t ! p)) = mac"
      using op eq 3(2) ti e by simp_all
    then show ?thesis using absent p by blast
  next
    case 4
    then have "?t ! p = t ! p" "?t ! q = t ! q" by simp_all
    then have "state (t ! p) = ENTRY_OCCUPIED" "state (t ! q) = ENTRY_OCCUPIED"
      "addr (device (t ! p)) = addr (device (t ! q))"
      using op oq eq by simp_all
    then show ?thesis using di p q unfolding distinct_inv_def by blast
  qed
qed

section \<open>One callback preserves the invariants\<close>

lemma unat_min_31: "unat (of_nat (min (length buf) 31) :: u8) = min (length buf) 31"
  by (simp add: unat_of_nat min_def)

lemma zero_filled_recorded_data:
  "zero_filled (d\<lparr>data_len := of_nat (min (length buf) 31),
       data := take (min (length buf) 31) buf @ replicate (31 - min (length buf) 31) 0\<rparr>)"
  by (auto simp: zero_filled_def unat_min_31 nth_append)

lemma merge_observation_recorded:
  "addr d = a_val a \<Longrightarrow> merge_observation a r t buf d = recorded a r t buf (n_adv d + 1)"
  by (cases d) (simp add: merge_observation_def recorded_def)

lemma merge_observation_simps:
  "addr (merge_observation a r t buf d) = addr d"
  "length (data (merge_observation a r t buf d)) = 31"
  "zero_filled (merge_observation a r t buf d)"
  by (auto simp: merge_observation_def zero_filled_def unat_min_31 nth_append)

lemma scan_cb_merge:
  assumes wf: "wf_table (hash_table s)" and la: "length (a_val a) = 6"
  shows "scan_cb s a r t buf =
     (if \<not> buffer_active s then Some s
      else case find_or_create
                  (s\<lparr>buffer_hdr := (buffer_hdr s)\<lparr>n_adv_raw := n_adv_raw (buffer_hdr s) + 1\<rparr>\<rparr>) a
        of (None, s1) \<Rightarrow>
             Some (s\<lparr>buffer_hdr := (buffer_hdr s)\<lparr>n_adv_raw := n_adv_raw (buffer_hdr s) + 1\<rparr>\<rparr>)
         | (Some i, s1) \<Rightarrow>
             Some (s1\<lparr>hash_table := (hash_table s1)[i := (hash_table s1 ! i)
                 \<lparr>device := merge_observation a r t buf (device (hash_table s1 ! i))\<rparr>]\<rparr>))"
  unfolding scan_cb_eq [OF assms] merge_observation_def ..

lemma records_of_raw [simp]:
  "records_of (s\<lparr>buffer_hdr := h\<rparr>) mac = records_of s mac"
  by (simp add: records_of_def)

lemma lookup_full_iff:
  assumes "wf_table (hash_table s)" "length (a_val a) = 6"
  shows "lookup_full s a \<longleftrightarrow>
    fst (find_or_create
       (s\<lparr>buffer_hdr := (buffer_hdr s)\<lparr>n_adv_raw := n_adv_raw (buffer_hdr s) + 1\<rparr>\<rparr>) a) = None"
  unfolding lookup_full_def
  using find_or_add_device_eq [of "s\<lparr>buffer_hdr := (buffer_hdr s)\<lparr>n_adv_raw := n_adv_raw (buffer_hdr s) + 1\<rparr>\<rparr>" a] assms
  by simp

lemma filter_update_present:
  assumes i: "i < length xs" and q: "Q e"
    and u: "\<forall>j<length xs. j \<noteq> i \<longrightarrow> \<not> Q (xs ! j)"
  shows "filter Q (xs[i := e]) = [e]"
proof -
  have "filter Q (xs[i := e]) = [xs[i := e] ! i]"
  proof (rule filter_unique)
    show "i < length (xs[i := e])" using i by simp
    show "Q (xs[i := e] ! i)" using i q by simp
    show "\<forall>j<length (xs[i := e]). Q (xs[i := e] ! j) \<longrightarrow> j = i"
    proof (intro allI impI)
      fix j assume j: "j < length (xs[i := e])" and qj: "Q (xs[i := e] ! j)"
      show "j = i"
      proof (rule ccontr)
        assume ne: "j \<noteq> i"
        then have "xs[i := e] ! j = xs ! j" by simp
        then show False using u j qj ne by simp
      qed
    qed
  qed
  then show ?thesis using i by simp
qed

lemma distinct_invD:
  assumes "distinct_inv t" "i < HASH_SIZE" "j < HASH_SIZE"
    "state (t ! i) = ENTRY_OCCUPIED" "state (t ! j) = ENTRY_OCCUPIED"
    "addr (device (t ! i)) = addr (device (t ! j))"
  shows "i = j"
proof -
  from assms(1) have "\<forall>i<HASH_SIZE. \<forall>j<HASH_SIZE.
        state (t ! i) = ENTRY_OCCUPIED \<longrightarrow> state (t ! j) = ENTRY_OCCUPIED \<longrightarrow>
        addr (device (t ! i)) = addr (device (t ! j)) \<longrightarrow> i = j"
    by (simp only: distinct_inv_def)
  with assms(2-6) show ?thesis by blast
qed

lemma distinct_inv_others:
  assumes di: "distinct_inv t" and len: "length t = HASH_SIZE" and i: "i < HASH_SIZE"
    and occ: "state (t ! i) = ENTRY_OCCUPIED" and ad: "addr (device (t ! i)) = mac"
  shows "\<forall>j<length t. j \<noteq> i \<longrightarrow>
           \<not> (state (t ! j) = ENTRY_OCCUPIED \<and> addr (device (t ! j)) = mac)"
proof (intro allI impI notI)
  fix j assume j: "j < length t" and ne: "j \<noteq> i"
    and q: "state (t ! j) = ENTRY_OCCUPIED \<and> addr (device (t ! j)) = mac"
  have j': "j < HASH_SIZE" using j len by simp
  have oj: "state (t ! j) = ENTRY_OCCUPIED" using q by simp
  have "addr (device (t ! j)) = addr (device (t ! i))" using q ad by simp
  then have "j = i"
    by (rule distinct_invD [OF di j' i oj occ])
  then show False using ne by simp
qed

lemma records_hit:
  assumes di: "distinct_inv (hash_table s)" and len: "length (hash_table s) = HASH_SIZE"
    and i: "i < HASH_SIZE"
    and occ: "state (hash_table s ! i) = ENTRY_OCCUPIED"
    and ad: "addr (device (hash_table s ! i)) = mac"
  shows "records_of s mac = [device (hash_table s ! i)]"
proof -
  let ?Q = "\<lambda>e. state e = ENTRY_OCCUPIED \<and> addr (device e) = mac"
  have "filter ?Q (hash_table s) = [hash_table s ! i]"
  proof (rule filter_unique)
    show "i < length (hash_table s)" using i len by simp
    show "?Q (hash_table s ! i)" using occ ad by simp
    show "\<forall>j<length (hash_table s). ?Q (hash_table s ! j) \<longrightarrow> j = i"
      using distinct_inv_others [OF di len i occ ad] by blast
  qed
  then show ?thesis by (simp add: records_of_def)
qed

lemma records_absent:
  assumes len: "length (hash_table s) = HASH_SIZE"
    and absent: "\<forall>m<HASH_SIZE. state (hash_table s ! m) = ENTRY_OCCUPIED \<longrightarrow>
                   addr (device (hash_table s ! m)) \<noteq> mac"
  shows "records_of s mac = []"
proof -
  let ?Q = "\<lambda>e. state e = ENTRY_OCCUPIED \<and> addr (device e) = mac"
  have "filter ?Q (hash_table s) = []"
    by (rule filter_none) (use len absent in auto)
  then show ?thesis by (simp add: records_of_def)
qed

lemma unat_u16_succ:
  fixes w :: u16
  assumes "unat w < HASH_SIZE"
  shows "unat (w + 1) = Suc (unat w)"
  using assms by (simp add: unat_word_ariths HASH_SIZE_def)

lemma globals_invD:
  assumes "globals_inv s"
  shows "wf_table (hash_table s)" "buffer_active s"
    "unat (n_mac (buffer_hdr s)) = occupied_count (hash_table s)"
    "unat (hash_entries s) = occupied_count (hash_table s)"
    "probe_inv (hash_table s)" "distinct_inv (hash_table s)"
    "list_all (\<lambda>e. zero_filled (device e)) (hash_table s)"
    "header (buffer_hdr s) = replicate UART_HEADER_LENGTH UART_HEADER_MAGIC"
    "msg_sequence s = sequence (buffer_hdr s) + 1"
    "length (hash_table s) = HASH_SIZE"
  using assms by (simp_all add: globals_inv_def wf_table_def)

lemma wf_table_nth:
  assumes "wf_table t" "i < HASH_SIZE"
  shows "length (addr (device (t ! i))) = 6" "length (data (device (t ! i))) = 31"
  using assms by (simp_all add: wf_table_def list_all_length)

lemma step_full:
  assumes inv: "globals_inv s" and la: "length (a_val a) = 6"
    and full: "find_or_create
       (s\<lparr>buffer_hdr := (buffer_hdr s)\<lparr>n_adv_raw := n_adv_raw (buffer_hdr s) + 1\<rparr>\<rparr>) a =
       (None, s\<lparr>buffer_hdr := (buffer_hdr s)\<lparr>n_adv_raw := n_adv_raw (buffer_hdr s) + 1\<rparr>\<rparr>)"
  shows "\<exists>s1. scan_cb s a r t buf = Some s1 \<and> step_result s a r t buf s1"
proof -
  let ?s0 = "s\<lparr>buffer_hdr := (buffer_hdr s)\<lparr>n_adv_raw := n_adv_raw (buffer_hdr s) + 1\<rparr>\<rparr>"
  note d = globals_invD [OF inv]
  have run: "scan_cb s a r t buf = Some ?s0"
    using d(2) by (simp add: scan_cb_merge [OF d(1) la] full)
  have inv0: "globals_inv ?s0"
    using inv by (simp add: globals_inv_def)
  have lf: "lookup_full s a"
    by (simp add: lookup_full_iff [OF d(1) la] full)
  have "step_result s a r t buf ?s0"
    unfolding step_result_def using inv0 lf by simp
  with run show ?thesis by blast
qed

lemma step_hit:
  assumes inv: "globals_inv s" and la: "length (a_val a) = 6"
    and i: "i < HASH_SIZE" and occ: "state (hash_table s ! i) = ENTRY_OCCUPIED"
    and ad: "addr (device (hash_table s ! i)) = a_val a"
    and hit: "find_or_create
       (s\<lparr>buffer_hdr := (buffer_hdr s)\<lparr>n_adv_raw := n_adv_raw (buffer_hdr s) + 1\<rparr>\<rparr>) a =
       (Some i, s\<lparr>buffer_hdr := (buffer_hdr s)\<lparr>n_adv_raw := n_adv_raw (buffer_hdr s) + 1\<rparr>\<rparr>)"
  shows "\<exists>s1. scan_cb s a r t buf = Some s1 \<and> step_result s a r t buf s1"
proof -
  let ?s0 = "s\<lparr>buffer_hdr := (buffer_hdr s)\<lparr>n_adv_raw := n_adv_raw (buffer_hdr s) + 1\<rparr>\<rparr>"
  let ?T = "hash_table s"
  let ?e = "(?T ! i)\<lparr>device := merge_observation a r t buf (device (?T ! i))\<rparr>"
  let ?s1 = "?s0\<lparr>hash_table := ?T[i := ?e]\<rparr>"
  note d = globals_invD [OF inv]
  have il: "i < length ?T" using i d(10) by simp
  have run: "scan_cb s a r t buf = Some ?s1"
    using d(2) by (simp add: scan_cb_merge [OF d(1) la] hit)
  have st: "state ?e = state (?T ! i)" by simp
  have ade: "addr (device ?e) = addr (device (?T ! i))"
    by (simp add: merge_observation_simps)
  note keys = same_keys_update [OF il st ade]
  have wf1: "wf_table (?T[i := ?e])"
    by (rule wf_table_update [OF d(1)])
       (simp_all add: merge_observation_simps wf_table_nth [OF d(1) i])
  have cnt: "occupied_count (?T[i := ?e]) = occupied_count ?T"
    by (rule occupied_count_same [OF il st])
  have pi: "probe_inv (?T[i := ?e])"
    by (rule probe_inv_same_keys [OF d(5) keys])
  have di: "distinct_inv (?T[i := ?e])"
    by (rule distinct_inv_same_keys [OF d(6) keys])
  have zf: "list_all (\<lambda>e. zero_filled (device e)) (?T[i := ?e])"
    by (rule zero_filled_update [OF d(7)]) (simp add: merge_observation_simps)
  have inv1: "globals_inv ?s1"
    unfolding globals_inv_def using wf1 cnt pi di zf d(2,3,4,8,9) by simp
  have others: "records_of ?s1 mac = records_of s mac" if "mac \<noteq> a_val a" for mac
  proof -
    have "filter (\<lambda>e. state e = ENTRY_OCCUPIED \<and> addr (device e) = mac) (?T[i := ?e]) =
          filter (\<lambda>e. state e = ENTRY_OCCUPIED \<and> addr (device e) = mac) ?T"
      by (rule filter_update_irrelevant [OF il]) (use that ad ade in auto)
    then show ?thesis by (simp add: records_of_def)
  qed
  have old: "records_of s (a_val a) = [device (?T ! i)]"
    by (rule records_hit [OF d(6) d(10) i occ ad])
  have "filter (\<lambda>e. state e = ENTRY_OCCUPIED \<and> addr (device e) = a_val a) (?T[i := ?e]) = [?e]"
    by (rule filter_update_present [OF il _ distinct_inv_others [OF d(6) d(10) i occ ad]])
       (simp add: occ ad merge_observation_simps)
  then have new: "records_of ?s1 (a_val a) = [recorded a r t buf (n_adv (device (?T ! i)) + 1)]"
    by (simp add: records_of_def merge_observation_recorded [OF ad])
  have lf: "\<not> lookup_full s a"
    by (simp add: lookup_full_iff [OF d(1) la] hit)
  have "step_result s a r t buf ?s1"
    unfolding step_result_def using inv1 others lf by (simp add: old new)
  with run show ?thesis by blast
qed

lemma step_new:
  assumes inv: "globals_inv s" and la: "length (a_val a) = 6"
    and k: "k < HASH_SIZE"
    and pre: "\<forall>j<k. state (hash_table s ! slot_of (a_val a) j) = ENTRY_OCCUPIED \<and>
              addr (device (hash_table s ! slot_of (a_val a) j)) \<noteq> a_val a"
    and free: "state (hash_table s ! slot_of (a_val a) k) \<noteq> ENTRY_OCCUPIED"
    and c1: "unat (n_mac (buffer_hdr s)) < HASH_SIZE"
    and c2: "unat (hash_entries s) < HASH_SIZE"
    and new: "find_or_create
       (s\<lparr>buffer_hdr := (buffer_hdr s)\<lparr>n_adv_raw := n_adv_raw (buffer_hdr s) + 1\<rparr>\<rparr>) a =
       (Some (slot_of (a_val a) k),
        claim_slot (s\<lparr>buffer_hdr := (buffer_hdr s)\<lparr>n_adv_raw := n_adv_raw (buffer_hdr s) + 1\<rparr>\<rparr>)
          a (slot_of (a_val a) k))"
  shows "\<exists>s1. scan_cb s a r t buf = Some s1 \<and> step_result s a r t buf s1"
proof -
  let ?s0 = "s\<lparr>buffer_hdr := (buffer_hdr s)\<lparr>n_adv_raw := n_adv_raw (buffer_hdr s) + 1\<rparr>\<rparr>"
  let ?T = "hash_table s"
  let ?i = "slot_of (a_val a) k"
  let ?c = "(device (?T ! ?i))\<lparr>addr := a_val a, n_adv := 0\<rparr>"
  let ?e = "(?T ! ?i)\<lparr>state := ENTRY_OCCUPIED, device := merge_observation a r t buf ?c\<rparr>"
  let ?s1 = "s\<lparr>hash_table := ?T[?i := ?e], hash_entries := hash_entries s + 1,
     buffer_hdr := (buffer_hdr s)\<lparr>n_adv_raw := n_adv_raw (buffer_hdr s) + 1,
                                  n_mac := n_mac (buffer_hdr s) + 1\<rparr>\<rparr>"
  note d = globals_invD [OF inv]
  have i: "?i < HASH_SIZE" by (rule slot_of_less)
  have il: "?i < length ?T" using i d(10) by simp
  have run: "scan_cb s a r t buf = Some ?s1"
    using d(2) il by (simp add: scan_cb_merge [OF d(1) la] new claim_slot_def)
  have st: "state ?e = ENTRY_OCCUPIED" by simp
  have ade: "addr (device ?e) = a_val a"
    by (simp add: merge_observation_simps)
  have absent: "\<forall>m<HASH_SIZE. state (?T ! m) = ENTRY_OCCUPIED \<longrightarrow>
                   addr (device (?T ! m)) \<noteq> a_val a"
    using new_slot_absent [OF d(5) k pre free] by blast
  have pre': "\<forall>j<k. state (?T ! slot_of (a_val a) j) = ENTRY_OCCUPIED"
    using pre by blast
  have wf1: "wf_table (?T[?i := ?e])"
    by (rule wf_table_update [OF d(1)]) (simp_all add: merge_observation_simps la)
  have cnt: "occupied_count (?T[?i := ?e]) = Suc (occupied_count ?T)"
    by (rule occupied_count_new [OF il free st])
  have n1: "unat (n_mac (buffer_hdr s) + 1) = Suc (occupied_count ?T)"
    using unat_u16_succ [OF c1] d(3) by simp
  have n2: "unat (hash_entries s + 1) = Suc (occupied_count ?T)"
    using unat_u16_succ [OF c2] d(4) by simp
  have pi: "probe_inv (?T[?i := ?e])"
    by (rule probe_inv_new [OF d(5) d(10) k pre' st ade])
  have di: "distinct_inv (?T[?i := ?e])"
    by (rule distinct_inv_new [OF d(6) d(10) i absent ade])
  have zf: "list_all (\<lambda>e. zero_filled (device e)) (?T[?i := ?e])"
    by (rule zero_filled_update [OF d(7)]) (simp add: merge_observation_simps)
  have inv1: "globals_inv ?s1"
    unfolding globals_inv_def using wf1 cnt n1 n2 pi di zf d(2,8,9) by simp
  have others: "records_of ?s1 mac = records_of s mac" if "mac \<noteq> a_val a" for mac
  proof -
    have "filter (\<lambda>e. state e = ENTRY_OCCUPIED \<and> addr (device e) = mac) (?T[?i := ?e]) =
          filter (\<lambda>e. state e = ENTRY_OCCUPIED \<and> addr (device e) = mac) ?T"
      by (rule filter_update_irrelevant [OF il]) (use that free ade in auto)
    then show ?thesis by (simp add: records_of_def)
  qed
  have old: "records_of s (a_val a) = []"
    by (rule records_absent [OF d(10) absent])
  have u: "\<forall>j<length ?T. j \<noteq> ?i \<longrightarrow>
       \<not> (state (?T ! j) = ENTRY_OCCUPIED \<and> addr (device (?T ! j)) = a_val a)"
    using absent d(10) by auto
  have "filter (\<lambda>e. state e = ENTRY_OCCUPIED \<and> addr (device e) = a_val a) (?T[?i := ?e]) = [?e]"
    by (rule filter_update_present [OF il _ u]) (simp add: merge_observation_simps)
  then have rnew: "records_of ?s1 (a_val a) = [recorded a r t buf 1]"
    by (simp add: records_of_def merge_observation_recorded)
  have lf: "\<not> lookup_full s a"
    by (simp add: lookup_full_iff [OF d(1) la] new)
  have "step_result s a r t buf ?s1"
    unfolding step_result_def using inv1 others lf old rnew by simp
  with run show ?thesis by blast
qed

lemma scan_cb_step:
  assumes inv: "globals_inv s" and la: "length (a_val a) = 6"
  shows "\<exists>s1. scan_cb s a r t buf = Some s1 \<and> step_result s a r t buf s1"
proof -
  let ?s0 = "s\<lparr>buffer_hdr := (buffer_hdr s)\<lparr>n_adv_raw := n_adv_raw (buffer_hdr s) + 1\<rparr>\<rparr>"
  show ?thesis
  proof (cases rule: find_or_create_cases [of ?s0 a])
    case Full
    then show ?thesis by (rule step_full [OF inv la])
  next
    case (Hit i)
    show ?thesis
      using Hit by (intro step_hit [OF inv la, of i]) simp_all
  next
    case (New k)
    show ?thesis
      using New by (intro step_new [OF inv la, of k]) simp_all
  qed
qed

section \<open>Reachable globals, frames and windows\<close>

subsection \<open>A reset establishes the invariants\<close>

lemma nth_cleared_table:
  "i < HASH_SIZE \<Longrightarrow> replicate HASH_SIZE zero_entry ! i = zero_entry"
  by simp

lemma occupied_count_cleared: "occupied_count (replicate HASH_SIZE zero_entry) = 0"
  by (simp add: occupied_count_def zero_entry_def)

lemma probe_inv_cleared: "probe_inv (replicate HASH_SIZE zero_entry)"
  by (simp add: probe_inv_def zero_entry_def)

lemma distinct_inv_cleared: "distinct_inv (replicate HASH_SIZE zero_entry)"
  by (simp add: distinct_inv_def zero_entry_def)

lemma zero_filled_cleared:
  "list_all (\<lambda>e. zero_filled (device e)) (replicate HASH_SIZE zero_entry)"
  by (simp add: list_all_length zero_entry_def zero_device_def zero_filled_def)

lemma reset_buffer_fields:
  "hash_table (reset_buffer s) = replicate HASH_SIZE zero_entry"
  "buffer_hdr (reset_buffer s) =
     \<lparr>header = replicate UART_HEADER_LENGTH UART_HEADER_MAGIC, sequence = msg_sequence s,
      n_adv_raw = 0, n_mac = 0\<rparr>"
  "msg_sequence (reset_buffer s) = msg_sequence s + 1"
  "hash_entries (reset_buffer s) = 0"
  "buffer_active (reset_buffer s) = buffer_active s"
  by (simp_all add: reset_buffer_def Let_def zero_header_def)

lemma globals_inv_reset: "globals_inv ((reset_buffer s)\<lparr>buffer_active := True\<rparr>)"
  by (simp add: globals_inv_def reset_buffer_fields wf_table_replicate occupied_count_cleared
        probe_inv_cleared distinct_inv_cleared zero_filled_cleared)

lemma snd_sampling_timer_handler:
  "snd (sampling_timer_handler bo s) =
     (reset_buffer (s\<lparr>buffer_active := False\<rparr>))\<lparr>buffer_active := True\<rparr>"
  by (simp add: sampling_timer_handler_def Let_def)

lemma fst_sampling_timer_handler:
  "fst (sampling_timer_handler bo s) = send_buffer bo (s\<lparr>buffer_active := False\<rparr>)"
  by (simp add: sampling_timer_handler_def Let_def)

lemma reachable_inv: "reachable s \<Longrightarrow> globals_inv s"
proof (induction rule: reachable.induct)
  case start
  show ?case unfolding main_start_def by (rule globals_inv_reset)
next
  case (scan s a r t buf s1)
  from scan_cb_step [OF scan.IH scan.hyps(2), of r t buf] scan.hyps(3)
  show ?case by (auto simp: step_result_def)
next
  case (tick s bo)
  show ?case unfolding snd_sampling_timer_handler by (rule globals_inv_reset)
qed

subsection \<open>Encoding and decoding\<close>

lemma u16_roundtrip: "u16_of_bytes bo (u16_bytes bo w) = w"
proof (cases bo)
  case LittleEndian
  have "(ucast (ucast w :: u8) :: u16) OR push_bit 8 (ucast (ucast (drop_bit 8 w) :: u8)) = w"
    by (rule bit_word_eqI) (auto simp: bit_simps)
  then show ?thesis using LittleEndian by (simp add: u16_of_bytes_def u16_bytes_def)
next
  case BigEndian
  have "(ucast (ucast w :: u8) :: u16) OR push_bit 8 (ucast (ucast (drop_bit 8 w) :: u8)) = w"
    by (rule bit_word_eqI) (auto simp: bit_simps)
  then show ?thesis using BigEndian by (simp add: u16_of_bytes_def u16_bytes_def)
qed

lemma length_u16_bytes: "length (u16_bytes bo w) = 2"
  by (cases bo) (simp_all add: u16_bytes_def)

lemma length_header_bytes: "length (header h) = 4 \<Longrightarrow> length (header_bytes bo h) = 9"
  by (simp add: header_bytes_def length_u16_bytes)

lemma decode_header_bytes:
  assumes "length (header h) = 4"
  shows "decode_header bo (header_bytes bo h @ rest) = h"
  using assms
  by (cases h) (simp add: decode_header_def header_bytes_def nth_append length_u16_bytes u16_roundtrip)

lemma length_device_bytes:
  "length (addr d) = 6 \<Longrightarrow> length (data d) = 31 \<Longrightarrow> length (device_bytes d) = 42"
  by (simp add: device_bytes_def)

lemma decode_record_bytes:
  assumes "length (addr d) = 6" "length (data d) = 31"
  shows "decode_record (device_bytes d @ rest) = d"
  using assms by (cases d) (simp add: decode_record_def device_bytes_def nth_append)

lemma decode_records_bytes:
  assumes "list_all (\<lambda>d. length (addr d) = 6 \<and> length (data d) = 31) ds"
  shows "decode_records (length ds) (concat (map device_bytes ds)) = Some ds"
  using assms
proof (induction ds)
  case Nil
  then show ?case by simp
next
  case (Cons d ds)
  then have l: "length (addr d) = 6" "length (data d) = 31" by simp_all
  have "decode_records (length ds) (concat (map device_bytes ds)) = Some ds"
    using Cons by simp
  then show ?case
    using length_device_bytes [OF l] decode_record_bytes [OF l, of "[]"] by simp
qed

lemma concat_map_if_filter:
  "concat (map (\<lambda>e. if P e then g e else []) xs) = concat (map g (filter P xs))"
  by (induction xs) simp_all

lemma map_index_nth: "map (\<lambda>i. f (xs ! i)) [0..<length xs] = map f xs"
proof -
  have "map (\<lambda>i. f (xs ! i)) [0..<length xs] = map f (map ((!) xs) [0..<length xs])"
    by simp
  then show ?thesis by (simp only: map_nth)
qed

lemma send_buffer_eq:
  assumes "length (hash_table s) = HASH_SIZE"
  shows "send_buffer bo s =
     header_bytes bo (buffer_hdr s) @ concat (map device_bytes (occupied_records s))"
proof -
  have "map (\<lambda>i. if state (hash_table s ! i) = ENTRY_OCCUPIED
                        then device_bytes (device (hash_table s ! i)) else [])
                 [0..<HASH_SIZE] =
        map (\<lambda>e. if state e = ENTRY_OCCUPIED then device_bytes (device e) else []) (hash_table s)"
    using map_index_nth [of "\<lambda>e. if state e = ENTRY_OCCUPIED then device_bytes (device e) else []"
        "hash_table s"] assms by simp
  then show ?thesis
    by (simp add: send_buffer_def occupied_records_def
          concat_map_if_filter [of "\<lambda>e. state e = ENTRY_OCCUPIED" "\<lambda>e. device_bytes (device e)"]
          comp_def)
qed

lemma frame_roundtrip:
  assumes wf: "wf_table (hash_table s)" and hl: "length (header (buffer_hdr s)) = 4"
    and cnt: "unat (n_mac (buffer_hdr s)) = occupied_count (hash_table s)"
  shows "decode_frame bo (send_buffer bo s) = Some (buffer_hdr s, occupied_records s)"
    and "length (send_buffer bo s) = 9 + 42 * occupied_count (hash_table s)"
proof -
  have len: "length (hash_table s) = HASH_SIZE" using wf by (simp add: wf_table_def)
  have all: "list_all (\<lambda>d. length (addr d) = 6 \<and> length (data d) = 31) (occupied_records s)"
    using wf by (auto simp: wf_table_def occupied_records_def list_all_iff)
  have n: "length (occupied_records s) = occupied_count (hash_table s)"
    by (simp add: occupied_records_def occupied_count_def)
  have recs: "decode_records (occupied_count (hash_table s))
                (concat (map device_bytes (occupied_records s))) = Some (occupied_records s)"
    using decode_records_bytes [OF all] by (simp only: n)
  have hb: "length (header_bytes bo (buffer_hdr s)) = 9"
    by (rule length_header_bytes [OF hl])
  have dh: "decode_header bo (header_bytes bo (buffer_hdr s)) = buffer_hdr s"
    using decode_header_bytes [OF hl, of bo "[]"] by simp
  show "decode_frame bo (send_buffer bo s) = Some (buffer_hdr s, occupied_records s)"
    by (simp add: decode_frame_def send_buffer_eq [OF len] hb dh cnt recs)
  have "length (concat (map device_bytes ds)) = 42 * length ds"
    if "list_all (\<lambda>d. length (addr d) = 6 \<and> length (data d) = 31) ds" for ds
    using that by (induction ds) (simp_all add: length_device_bytes)
  from this [OF all]
  show "length (send_buffer bo s) = 9 + 42 * occupied_count (hash_table s)"
    by (simp add: send_buffer_eq [OF len] hb n)
qed

lemma header_reachable:
  assumes "globals_inv s"
  shows "header (buffer_hdr s) = [0x55, 0x55, 0x55, 0x55]"
  using globals_invD(8) [OF assms]
  by (simp add: UART_HEADER_LENGTH_def UART_HEADER_MAGIC_def numeral_eq_Suc)

lemma frame_of_handler:
  assumes inv: "globals_inv s"
  shows "decode_frame bo (fst (sampling_timer_handler bo s)) =
           Some (buffer_hdr s, occupied_records s)"
    and "length (fst (sampling_timer_handler bo s)) = 9 + 42 * unat (n_mac (buffer_hdr s))"
    and "take 4 (fst (sampling_timer_handler bo s)) = [0x55, 0x55, 0x55, 0x55]"
    and "fst (sampling_timer_handler bo s) ! 4 = sequence (buffer_hdr s)"
    and "decode_header bo (take 9 (fst (sampling_timer_handler bo s))) = buffer_hdr s"
proof -
  let ?s = "s\<lparr>buffer_active := False\<rparr>"
  note d = globals_invD [OF inv]
  have wf: "wf_table (hash_table ?s)" using d(1) by simp
  have hd: "header (buffer_hdr s) = [0x55, 0x55, 0x55, 0x55]" by (rule header_reachable [OF inv])
  have hl: "length (header (buffer_hdr ?s)) = 4" using hd by simp
  have cnt: "unat (n_mac (buffer_hdr ?s)) = occupied_count (hash_table ?s)" using d(3) by simp
  have or: "occupied_records ?s = occupied_records s" by (simp add: occupied_records_def)
  show "decode_frame bo (fst (sampling_timer_handler bo s)) =
           Some (buffer_hdr s, occupied_records s)"
    using frame_roundtrip(1) [OF wf hl cnt, of bo] by (simp add: fst_sampling_timer_handler or)
  show "length (fst (sampling_timer_handler bo s)) = 9 + 42 * unat (n_mac (buffer_hdr s))"
    using frame_roundtrip(2) [OF wf hl cnt, of bo] d(3) by (simp add: fst_sampling_timer_handler)
  have sb: "send_buffer bo ?s =
     header_bytes bo (buffer_hdr s) @ concat (map device_bytes (occupied_records s))"
    using send_buffer_eq [of ?s bo] d(10) by (simp add: or)
  show "take 4 (fst (sampling_timer_handler bo s)) = [0x55, 0x55, 0x55, 0x55]"
    by (simp add: fst_sampling_timer_handler sb header_bytes_def hd)
  show "fst (sampling_timer_handler bo s) ! 4 = sequence (buffer_hdr s)"
    by (simp add: fst_sampling_timer_handler sb header_bytes_def hd)
  have hb: "length (header_bytes bo (buffer_hdr s)) = 9"
    by (rule length_header_bytes) (simp add: hd)
  have "decode_header bo (header_bytes bo (buffer_hdr s)) = buffer_hdr s"
    using decode_header_bytes [of "buffer_hdr s" bo "[]"] hd by simp
  then show "decode_header bo (take 9 (fst (sampling_timer_handler bo s))) = buffer_hdr s"
    by (simp add: fst_sampling_timer_handler sb hb)
qed

subsection \<open>The callbacks of a window\<close>

lemma observe_step:
  assumes "globals_inv s" "length (a_val (ob_addr ob)) = 6"
  shows "\<exists>s1. observe s ob = Some s1 \<and>
           step_result s (ob_addr ob) (ob_rssi ob) (ob_adv_type ob) (ob_buf ob) s1"
  unfolding observe_def by (rule scan_cb_step [OF assms])

lemma step_resultD:
  assumes "step_result s a r t buf s1"
  shows "globals_inv s1" "msg_sequence s1 = msg_sequence s"
    "sequence (buffer_hdr s1) = sequence (buffer_hdr s)"
    "n_adv_raw (buffer_hdr s1) = n_adv_raw (buffer_hdr s) + 1"
    "mac \<noteq> a_val a \<Longrightarrow> records_of s1 mac = records_of s mac"
    "lookup_full s a \<Longrightarrow> records_of s1 (a_val a) = records_of s (a_val a)"
    "\<not> lookup_full s a \<Longrightarrow> records_of s1 (a_val a) =
       [recorded a r t buf (case records_of s (a_val a) of [] \<Rightarrow> 1 | d # ds \<Rightarrow> n_adv d + 1)]"
  using assms by (simp_all add: step_result_def)

lemma observe_all_inv:
  assumes "globals_inv s" "\<forall>ob\<in>set obs. length (a_val (ob_addr ob)) = 6"
  shows "\<exists>s1. observe_all s obs = Some s1 \<and> globals_inv s1 \<and>
           msg_sequence s1 = msg_sequence s \<and>
           sequence (buffer_hdr s1) = sequence (buffer_hdr s) \<and>
           n_adv_raw (buffer_hdr s1) = n_adv_raw (buffer_hdr s) + of_nat (length obs)"
  using assms
proof (induction obs arbitrary: s)
  case Nil
  then show ?case by simp
next
  case (Cons ob obs)
  from Cons.prems obtain s1 where s1: "observe s ob = Some s1"
    and st: "step_result s (ob_addr ob) (ob_rssi ob) (ob_adv_type ob) (ob_buf ob) s1"
    using observe_step [of s ob] by auto
  note d = step_resultD [OF st]
  from Cons.IH [OF d(1)] Cons.prems(2) obtain s2 where s2: "observe_all s1 obs = Some s2"
    "globals_inv s2" "msg_sequence s2 = msg_sequence s1"
    "sequence (buffer_hdr s2) = sequence (buffer_hdr s1)"
    "n_adv_raw (buffer_hdr s2) = n_adv_raw (buffer_hdr s1) + of_nat (length obs)"
    by auto
  show ?case
    using s1 s2 d(2,3,4) by simp
qed

lemma reachable_observe_all:
  assumes "reachable s" "\<forall>ob\<in>set obs. length (a_val (ob_addr ob)) = 6"
  shows "\<exists>s1. observe_all s obs = Some s1 \<and> reachable s1"
  using assms
proof (induction obs arbitrary: s)
  case Nil
  then show ?case by simp
next
  case (Cons ob obs)
  have l: "length (a_val (ob_addr ob)) = 6" using Cons.prems(2) by simp
  from observe_step [OF reachable_inv [OF Cons.prems(1)] l]
  obtain s1 where s1: "observe s ob = Some s1" by blast
  then have "reachable s1"
    using reachable.scan [OF Cons.prems(1) l] by (simp add: observe_def)
  from Cons.IH [OF this] Cons.prems(2) obtain s2 where "observe_all s1 obs = Some s2" "reachable s2"
    by auto
  then show ?case using s1 by simp
qed

subsection \<open>Consecutive windows\<close>

lemma sequence_after_tick:
  assumes "globals_inv s"
  shows "sequence (buffer_hdr (snd (sampling_timer_handler bo s))) = sequence (buffer_hdr s) + 1"
  using globals_invD(9) [OF assms]
  by (simp add: snd_sampling_timer_handler reset_buffer_fields)

lemma run_windows_sequence:
  assumes "globals_inv s" "\<forall>obs\<in>set obss. \<forall>ob\<in>set obs. length (a_val (ob_addr ob)) = 6"
  shows "\<exists>frames s1. run_windows bo s obss = Some (frames, s1) \<and> globals_inv s1 \<and>
           map (\<lambda>f. f ! 4) frames =
             map (\<lambda>k. sequence (buffer_hdr s) + of_nat k) [0..<length obss]"
  using assms
proof (induction obss arbitrary: s)
  case Nil
  then show ?case by simp
next
  case (Cons obs obss)
  from observe_all_inv [OF Cons.prems(1), of obs] Cons.prems(2)
  obtain s1 where s1: "observe_all s obs = Some s1" "globals_inv s1"
    "sequence (buffer_hdr s1) = sequence (buffer_hdr s)"
    by auto
  let ?s2 = "snd (sampling_timer_handler bo s1)"
  have inv2: "globals_inv ?s2"
    unfolding snd_sampling_timer_handler by (rule globals_inv_reset)
  from Cons.IH [OF inv2] Cons.prems(2)
  obtain frames s3 where r: "run_windows bo ?s2 obss = Some (frames, s3)" "globals_inv s3"
    "map (\<lambda>f. f ! 4) frames =
       map (\<lambda>k. sequence (buffer_hdr ?s2) + of_nat k) [0..<length obss]"
    by auto
  have f0: "fst (sampling_timer_handler bo s1) ! 4 = sequence (buffer_hdr s)"
    using frame_of_handler(4) [OF s1(2), of bo] s1(3) by simp
  have sq: "sequence (buffer_hdr ?s2) = sequence (buffer_hdr s) + 1"
    using sequence_after_tick [OF s1(2), of bo] s1(3) by simp
  have upt: "[0..<Suc (length obss)] = 0 # map Suc [0..<length obss]"
    by (simp only: map_Suc_upt upt_conv_Cons [OF zero_less_Suc])
  have shift: "map (\<lambda>k. sequence (buffer_hdr s) + of_nat k) [0..<Suc (length obss)] =
      sequence (buffer_hdr s) #
      map (\<lambda>k. sequence (buffer_hdr s) + 1 + of_nat k) [0..<length obss]"
    unfolding upt by (simp add: comp_def add.assoc)
  show ?case
    using s1(1) r(1,2) by (simp add: f0 r(3) sq shift del: upt_Suc)
qed

subsection \<open>Two callbacks for one identifier, evaluated\<close>

lemma hash_123456: "hash_mac [1, 2, 3, 4, 5, 6] = 117"
  by (simp add: hash_mac_closed HASH_MASK_def HASH_SIZE_def)

lemma main_start_eq:
  "main_start = \<lparr>hash_table = replicate HASH_SIZE zero_entry,
      buffer_hdr = \<lparr>header = [0x55, 0x55, 0x55, 0x55], sequence = 0, n_adv_raw = 0, n_mac = 0\<rparr>,
      buffer_active = True, msg_sequence = 1, hash_entries = 0\<rparr>"
  by (simp add: main_start_def reset_buffer_def static_init_def Let_def zero_header_def
      UART_HEADER_LENGTH_def UART_HEADER_MAGIC_def numeral_eq_Suc)

lemma find_or_add_device_home_hit:
  assumes "state (hash_table s ! unat (hash_mac (a_val a))) = ENTRY_OCCUPIED"
    and "take 6 (addr (device (hash_table s ! unat (hash_mac (a_val a))))) = take 6 (a_val a)"
  shows "find_or_add_device s a = Some (Some (unat (hash_mac (a_val a))), s)"
  unfolding find_or_add_device_def
  using assms by (subst find_or_add_device_loop.simps) simp

lemma first_callback:
  "scan_cb main_start \<lparr>type_le = 1, a_val = [1, 2, 3, 4, 5, 6]\<rparr> 200 3 [9, 9, 9] =
     Some (main_start
       \<lparr>hash_table := (replicate HASH_SIZE zero_entry)[117 :=
           \<lparr>state = ENTRY_OCCUPIED,
            device = \<lparr>addr = [1, 2, 3, 4, 5, 6], addr_type = 1, adv_type = 3, rssi = 200,
                      data_len = 3, data = [9, 9, 9] @ replicate 28 0, n_adv = 1\<rparr>\<rparr>],
        buffer_hdr := \<lparr>header = [0x55, 0x55, 0x55, 0x55], sequence = 0,
                       n_adv_raw = 1, n_mac = 1\<rparr>,
        hash_entries := 1\<rparr>)"
  by (simp add: scan_cb_def find_or_add_device_home hash_123456 main_start_eq zero_entry_def
     MAX_DEVICES_def HASH_SIZE_def Let_def zero_device_def)

lemma second_callback:
  "scan_cb (main_start
       \<lparr>hash_table := (replicate HASH_SIZE zero_entry)[117 :=
           \<lparr>state = ENTRY_OCCUPIED,
            device = \<lparr>addr = [1, 2, 3, 4, 5, 6], addr_type = 1, adv_type = 3, rssi = 200,
                      data_len = 3, data = [9, 9, 9] @ replicate 28 0, n_adv = 1\<rparr>\<rparr>],
        buffer_hdr := \<lparr>header = [0x55, 0x55, 0x55, 0x55], sequence = 0,
                       n_adv_raw = 1, n_mac = 1\<rparr>,
        hash_entries := 1\<rparr>)
     \<lparr>type_le = 0, a_val = [1, 2, 3, 4, 5, 6]\<rparr> 180 0 [7] =
     Some (main_start
       \<lparr>hash_table := (replicate HASH_SIZE zero_entry)[117 :=
           \<lparr>state = ENTRY_OCCUPIED,
            device = \<lparr>addr = [1, 2, 3, 4, 5, 6], addr_type = 0, adv_type = 0, rssi = 180,
                      data_len = 1, data = [7] @ replicate 30 0, n_adv = 2\<rparr>\<rparr>],
        buffer_hdr := \<lparr>header = [0x55, 0x55, 0x55, 0x55], sequence = 0,
                       n_adv_raw = 2, n_mac = 1\<rparr>,
        hash_entries := 1\<rparr>)"
  by (simp add: scan_cb_def find_or_add_device_home_hit hash_123456 main_start_eq zero_entry_def
     MAX_DEVICES_def HASH_SIZE_def Let_def zero_device_def)

lemma reachable_after_two:
  "reachable (main_start
       \<lparr>hash_table := (replicate HASH_SIZE zero_entry)[117 :=
           \<lparr>state = ENTRY_OCCUPIED,
            device = \<lparr>addr = [1, 2, 3, 4, 5, 6], addr_type = 0, adv_type = 0, rssi = 180,
                      data_len = 1, data = [7] @ replicate 30 0, n_adv = 2\<rparr>\<rparr>],
        buffer_hdr := \<lparr>header = [0x55, 0x55, 0x55, 0x55], sequence = 0,
                       n_adv_raw = 2, n_mac = 1\<rparr>,
        hash_entries := 1\<rparr>)"
  by (rule reachable.scan [OF reachable.scan [OF reachable.start _ first_callback]
        _ second_callback]) simp_all

section \<open>The payload is zero beyond its length\<close>

lemma zero_filled_nth:
  assumes "globals_inv s" "i < HASH_SIZE"
  shows "zero_filled (device (hash_table s ! i))"
  using globals_invD(7,10) [OF assms(1)] assms(2) by (simp add: list_all_length)

text \<open>Claim C4: in every reachable state of the globals, every record of the table has
  only zero bytes in \<open>data\<close> from index \<open>data_len\<close> on. Reachable states include those in
  which the slot held, earlier in the window or in an earlier window, a record with
  non-zero bytes at these positions.\<close>

theorem payload_zero_filled:
  assumes "reachable s" and "i < HASH_SIZE" and "j < 31"
    and "unat (data_len (device (hash_table s ! i))) \<le> j"
  shows "data (device (hash_table s ! i)) ! j = 0"
  using zero_filled_nth [OF reachable_inv [OF assms(1)] assms(2)] assms(3,4)
  by (simp add: zero_filled_def)

theorem payload_zero_filled_witness:
  "reachable (main_start
       \<lparr>hash_table := (replicate HASH_SIZE zero_entry)[117 :=
           \<lparr>state = ENTRY_OCCUPIED,
            device = \<lparr>addr = [1, 2, 3, 4, 5, 6], addr_type = 0, adv_type = 0, rssi = 180,
                      data_len = 1, data = [7] @ replicate 30 0, n_adv = 2\<rparr>\<rparr>],
        buffer_hdr := \<lparr>header = [0x55, 0x55, 0x55, 0x55], sequence = 0,
                       n_adv_raw = 2, n_mac = 1\<rparr>,
        hash_entries := 1\<rparr>)
   \<and> 117 < HASH_SIZE \<and> (2 :: nat) < 31
   \<and> unat (data_len (device (hash_table (main_start
       \<lparr>hash_table := (replicate HASH_SIZE zero_entry)[117 :=
           \<lparr>state = ENTRY_OCCUPIED,
            device = \<lparr>addr = [1, 2, 3, 4, 5, 6], addr_type = 0, adv_type = 0, rssi = 180,
                      data_len = 1, data = [7] @ replicate 30 0, n_adv = 2\<rparr>\<rparr>],
        buffer_hdr := \<lparr>header = [0x55, 0x55, 0x55, 0x55], sequence = 0,
                       n_adv_raw = 2, n_mac = 1\<rparr>,
        hash_entries := 1\<rparr>) ! 117))) \<le> 2
   \<and> data (device (hash_table (main_start
       \<lparr>hash_table := (replicate HASH_SIZE zero_entry)[117 :=
           \<lparr>state = ENTRY_OCCUPIED,
            device = \<lparr>addr = [1, 2, 3, 4, 5, 6], addr_type = 0, adv_type = 0, rssi = 180,
                      data_len = 1, data = [7] @ replicate 30 0, n_adv = 2\<rparr>\<rparr>],
        buffer_hdr := \<lparr>header = [0x55, 0x55, 0x55, 0x55], sequence = 0,
                       n_adv_raw = 2, n_mac = 1\<rparr>,
        hash_entries := 1\<rparr>) ! 117)) ! 2 = 0"
proof -
  let ?s = "main_start
       \<lparr>hash_table := (replicate HASH_SIZE zero_entry)[117 :=
           \<lparr>state = ENTRY_OCCUPIED,
            device = \<lparr>addr = [1, 2, 3, 4, 5, 6], addr_type = 0, adv_type = 0, rssi = 180,
                      data_len = 1, data = [7] @ replicate 30 0, n_adv = 2\<rparr>\<rparr>],
        buffer_hdr := \<lparr>header = [0x55, 0x55, 0x55, 0x55], sequence = 0,
                       n_adv_raw = 2, n_mac = 1\<rparr>,
        hash_entries := 1\<rparr>"
  have r: "reachable ?s" by (rule reachable_after_two)
  have i: "117 < HASH_SIZE" by (simp add: HASH_SIZE_def)
  have j: "(2 :: nat) < 31" by simp
  have l: "unat (data_len (device (hash_table ?s ! 117))) \<le> 2"
    by (simp add: HASH_SIZE_def)
  from r i j l payload_zero_filled [OF r i j l] show ?thesis by (intro conjI)
qed

section \<open>The unique count is the occupancy\<close>

lemma recorded_identifiers:
  "{mac. records_of s mac \<noteq> []} =
     (\<lambda>i. addr (device (hash_table s ! i))) `
       {i. i < length (hash_table s) \<and> state (hash_table s ! i) = ENTRY_OCCUPIED}"
proof -
  have "records_of s mac \<noteq> [] \<longleftrightarrow>
     (\<exists>i<length (hash_table s). state (hash_table s ! i) = ENTRY_OCCUPIED \<and>
        addr (device (hash_table s ! i)) = mac)" for mac
  proof
    assume "records_of s mac \<noteq> []"
    then obtain e where "e \<in> set (hash_table s)" "state e = ENTRY_OCCUPIED"
      "addr (device e) = mac"
      by (auto simp: records_of_def filter_empty_conv)
    then show "\<exists>i<length (hash_table s). state (hash_table s ! i) = ENTRY_OCCUPIED \<and>
        addr (device (hash_table s ! i)) = mac"
      by (auto simp: in_set_conv_nth)
  next
    assume "\<exists>i<length (hash_table s). state (hash_table s ! i) = ENTRY_OCCUPIED \<and>
        addr (device (hash_table s ! i)) = mac"
    then obtain i where i: "i < length (hash_table s)"
      "state (hash_table s ! i) = ENTRY_OCCUPIED" "addr (device (hash_table s ! i)) = mac"
      by blast
    have "hash_table s ! i \<in> set (hash_table s)" using i(1) by simp
    then show "records_of s mac \<noteq> []"
      using i(2,3) by (auto simp: records_of_def filter_empty_conv)
  qed
  then show ?thesis by auto
qed

lemma card_recorded_identifiers:
  assumes "globals_inv s"
  shows "card {mac. records_of s mac \<noteq> []} = occupied_count (hash_table s)"
proof -
  note d = globals_invD [OF assms]
  let ?I = "{i. i < length (hash_table s) \<and> state (hash_table s ! i) = ENTRY_OCCUPIED}"
  have "inj_on (\<lambda>i. addr (device (hash_table s ! i))) ?I"
  proof (rule inj_onI)
    fix i j assume "i \<in> ?I" "j \<in> ?I"
      and "addr (device (hash_table s ! i)) = addr (device (hash_table s ! j))"
    then show "i = j"
      using distinct_invD [OF d(6), of i j] d(10) by simp
  qed
  then have "card {mac. records_of s mac \<noteq> []} = card ?I"
    unfolding recorded_identifiers by (rule card_image)
  also have "\<dots> = occupied_count (hash_table s)"
    by (simp add: occupied_count_def length_filter_conv_card)
  finally show ?thesis .
qed

text \<open>Claim C5: in every reachable state the number of distinct identifiers that have a
  record is the number of slots tagged Occupied and is at most the capacity; the counter
  \<open>n_mac\<close> of the header equals that number, and it is the unique count a receiver reads
  from the header of the frame flushed in that state.\<close>

theorem unique_count_is_occupancy:
  assumes "reachable s"
  shows "card {mac. records_of s mac \<noteq> []} = occupied_count (hash_table s)
   \<and> occupied_count (hash_table s) \<le> HASH_SIZE
   \<and> unat (n_mac (buffer_hdr s)) = occupied_count (hash_table s)
   \<and> n_mac (decode_header bo (take 9 (fst (sampling_timer_handler bo s)))) = n_mac (buffer_hdr s)"
proof -
  note inv = reachable_inv [OF assms]
  note d = globals_invD [OF inv]
  have "occupied_count (hash_table s) \<le> HASH_SIZE"
    using occupied_count_le [of "hash_table s"] d(10) by simp
  then show ?thesis
    using card_recorded_identifiers [OF inv] d(3) frame_of_handler(5) [OF inv, of bo] by simp
qed

theorem unique_count_is_occupancy_witness:
  "reachable (main_start
       \<lparr>hash_table := (replicate HASH_SIZE zero_entry)[117 :=
           \<lparr>state = ENTRY_OCCUPIED,
            device = \<lparr>addr = [1, 2, 3, 4, 5, 6], addr_type = 0, adv_type = 0, rssi = 180,
                      data_len = 1, data = [7] @ replicate 30 0, n_adv = 2\<rparr>\<rparr>],
        buffer_hdr := \<lparr>header = [0x55, 0x55, 0x55, 0x55], sequence = 0,
                       n_adv_raw = 2, n_mac = 1\<rparr>,
        hash_entries := 1\<rparr>)
   \<and> occupied_count ((replicate HASH_SIZE zero_entry)[117 :=
           \<lparr>state = ENTRY_OCCUPIED,
            device = \<lparr>addr = [1, 2, 3, 4, 5, 6], addr_type = 0, adv_type = 0, rssi = 180,
                      data_len = 1, data = [7] @ replicate 30 0, n_adv = 2\<rparr>\<rparr>]) = 1"
proof -
  let ?s = "main_start
       \<lparr>hash_table := (replicate HASH_SIZE zero_entry)[117 :=
           \<lparr>state = ENTRY_OCCUPIED,
            device = \<lparr>addr = [1, 2, 3, 4, 5, 6], addr_type = 0, adv_type = 0, rssi = 180,
                      data_len = 1, data = [7] @ replicate 30 0, n_adv = 2\<rparr>\<rparr>],
        buffer_hdr := \<lparr>header = [0x55, 0x55, 0x55, 0x55], sequence = 0,
                       n_adv_raw = 2, n_mac = 1\<rparr>,
        hash_entries := 1\<rparr>"
  have r: "reachable ?s" by (rule reachable_after_two)
  from r unique_count_is_occupancy [OF r, of LittleEndian] show ?thesis by simp
qed

section \<open>The frame\<close>

text \<open>Claim C6: the frame flushed in any reachable state starts with the sync pattern
  0x55 0x55 0x55 0x55, has 9 + 42 * \<open>n_mac\<close> bytes with \<open>n_mac\<close> at most the capacity, and
  decoding it by the documented layout (9-byte header, then \<open>n_mac\<close> records of 42 bytes)
  gives back the header with its sequence number and counts and the record of every
  Occupied slot, field by field, in slot order. This holds for either byte order of the
  two 16-bit counts.\<close>

theorem frame_round_trip:
  assumes "reachable s"
  shows "decode_frame bo (fst (sampling_timer_handler bo s)) =
           Some (buffer_hdr s, occupied_records s)
   \<and> length (fst (sampling_timer_handler bo s)) = 9 + 42 * unat (n_mac (buffer_hdr s))
   \<and> take 4 (fst (sampling_timer_handler bo s)) = [0x55, 0x55, 0x55, 0x55]
   \<and> length (occupied_records s) = unat (n_mac (buffer_hdr s))
   \<and> unat (n_mac (buffer_hdr s)) \<le> HASH_SIZE"
proof -
  note inv = reachable_inv [OF assms]
  note d = globals_invD [OF inv]
  have n: "length (occupied_records s) = unat (n_mac (buffer_hdr s))"
    using d(3) by (simp add: occupied_records_def occupied_count_def)
  have "unat (n_mac (buffer_hdr s)) \<le> HASH_SIZE"
    using occupied_count_le [of "hash_table s"] d(3,10) by simp
  then show ?thesis
    using frame_of_handler(1,2,3) [OF inv, of bo] n by simp
qed

theorem frame_round_trip_witness:
  "reachable (main_start
       \<lparr>hash_table := (replicate HASH_SIZE zero_entry)[117 :=
           \<lparr>state = ENTRY_OCCUPIED,
            device = \<lparr>addr = [1, 2, 3, 4, 5, 6], addr_type = 0, adv_type = 0, rssi = 180,
                      data_len = 1, data = [7] @ replicate 30 0, n_adv = 2\<rparr>\<rparr>],
        buffer_hdr := \<lparr>header = [0x55, 0x55, 0x55, 0x55], sequence = 0,
                       n_adv_raw = 2, n_mac = 1\<rparr>,
        hash_entries := 1\<rparr>)
   \<and> decode_frame BigEndian (fst (sampling_timer_handler BigEndian (main_start
       \<lparr>hash_table := (replicate HASH_SIZE zero_entry)[117 :=
           \<lparr>state = ENTRY_OCCUPIED,
            device = \<lparr>addr = [1, 2, 3, 4, 5, 6], addr_type = 0, adv_type = 0, rssi = 180,
                      data_len = 1, data = [7] @ replicate 30 0, n_adv = 2\<rparr>\<rparr>],
        buffer_hdr := \<lparr>header = [0x55, 0x55, 0x55, 0x55], sequence = 0,
                       n_adv_raw = 2, n_mac = 1\<rparr>,
        hash_entries := 1\<rparr>))) =
     Some (\<lparr>header = [0x55, 0x55, 0x55, 0x55], sequence = 0, n_adv_raw = 2, n_mac = 1\<rparr>,
           [\<lparr>addr = [1, 2, 3, 4, 5, 6], addr_type = 0, adv_type = 0, rssi = 180,
             data_len = 1, data = [7] @ replicate 30 0, n_adv = 2\<rparr>])
   \<and> length (fst (sampling_timer_handler BigEndian (main_start
       \<lparr>hash_table := (replicate HASH_SIZE zero_entry)[117 :=
           \<lparr>state = ENTRY_OCCUPIED,
            device = \<lparr>addr = [1, 2, 3, 4, 5, 6], addr_type = 0, adv_type = 0, rssi = 180,
                      data_len = 1, data = [7] @ replicate 30 0, n_adv = 2\<rparr>\<rparr>],
        buffer_hdr := \<lparr>header = [0x55, 0x55, 0x55, 0x55], sequence = 0,
                       n_adv_raw = 2, n_mac = 1\<rparr>,
        hash_entries := 1\<rparr>))) = 51"
proof -
  let ?s = "main_start
       \<lparr>hash_table := (replicate HASH_SIZE zero_entry)[117 :=
           \<lparr>state = ENTRY_OCCUPIED,
            device = \<lparr>addr = [1, 2, 3, 4, 5, 6], addr_type = 0, adv_type = 0, rssi = 180,
                      data_len = 1, data = [7] @ replicate 30 0, n_adv = 2\<rparr>\<rparr>],
        buffer_hdr := \<lparr>header = [0x55, 0x55, 0x55, 0x55], sequence = 0,
                       n_adv_raw = 2, n_mac = 1\<rparr>,
        hash_entries := 1\<rparr>"
  have r: "reachable ?s" by (rule reachable_after_two)
  have i: "117 < HASH_SIZE" by (simp add: HASH_SIZE_def)
  have "filter (\<lambda>e. state e = ENTRY_OCCUPIED) ((replicate HASH_SIZE zero_entry)[117 :=
           \<lparr>state = ENTRY_OCCUPIED,
            device = \<lparr>addr = [1, 2, 3, 4, 5, 6], addr_type = 0, adv_type = 0, rssi = 180,
                      data_len = 1, data = [7] @ replicate 30 0, n_adv = 2\<rparr>\<rparr>]) =
        [\<lparr>state = ENTRY_OCCUPIED,
            device = \<lparr>addr = [1, 2, 3, 4, 5, 6], addr_type = 0, adv_type = 0, rssi = 180,
                      data_len = 1, data = [7] @ replicate 30 0, n_adv = 2\<rparr>\<rparr>]"
    by (rule filter_update_present) (simp_all add: i zero_entry_def)
  then have o: "occupied_records ?s =
     [\<lparr>addr = [1, 2, 3, 4, 5, 6], addr_type = 0, adv_type = 0, rssi = 180,
             data_len = 1, data = [7] @ replicate 30 0, n_adv = 2\<rparr>]"
    by (simp add: occupied_records_def)
  from r frame_round_trip [OF r, of BigEndian] show ?thesis
    unfolding o by simp
qed

section \<open>Sequence numbers\<close>

lemma unat_u8_add_of_nat:
  fixes w :: u8
  shows "unat (w + of_nat k) = (unat w + k) mod 256"
  by (simp add: unat_word_ariths unat_of_nat mod_simps)

text \<open>Claim C7: over any number of consecutive windows, started in any reachable state
  and with any callbacks in each window, every window returns and sends one frame, and
  the sequence bytes (offset 4) of the frames are \<open>s0\<close>, \<open>s0 + 1\<close>, \<open>s0 + 2\<close>, ... modulo
  256, where \<open>s0\<close> is the sequence number of the header at the start: one increment per
  window reset, wrapping at 256.\<close>

theorem sequence_numbers:
  assumes "reachable s"
    and "\<forall>obs\<in>set obss. \<forall>ob\<in>set obs. length (a_val (ob_addr ob)) = 6"
  shows "\<exists>frames s1. run_windows bo s obss = Some (frames, s1) \<and>
           map (\<lambda>f. unat (f ! 4)) frames =
             map (\<lambda>k. (unat (sequence (buffer_hdr s)) + k) mod 256) [0..<length obss]"
proof -
  from run_windows_sequence [OF reachable_inv [OF assms(1)] assms(2), of bo]
  obtain frames s1 where r: "run_windows bo s obss = Some (frames, s1)"
    "map (\<lambda>f. f ! 4) frames =
       map (\<lambda>k. sequence (buffer_hdr s) + of_nat k) [0..<length obss]"
    by blast
  have "map (\<lambda>f. unat (f ! 4)) frames = map unat (map (\<lambda>f. f ! 4) frames)"
    by simp
  also have "\<dots> = map (\<lambda>k. (unat (sequence (buffer_hdr s)) + k) mod 256) [0..<length obss]"
    unfolding r(2) by (simp add: unat_u8_add_of_nat)
  finally show ?thesis using r(1) by blast
qed

theorem sequence_numbers_witness:
  "reachable main_start
   \<and> (\<exists>frames s1. run_windows LittleEndian main_start (replicate 258 []) = Some (frames, s1) \<and>
           map (\<lambda>f. unat (f ! 4)) frames = [0..<256] @ [0, 1])"
proof -
  have r: "reachable main_start" by (rule reachable.start)
  have w: "\<forall>obs\<in>set (replicate 258 []). \<forall>ob\<in>set obs. length (a_val (ob_addr ob)) = 6"
    by simp
  have "map (\<lambda>k. (unat (sequence (buffer_hdr main_start)) + k) mod 256) [0..<258] =
        [0..<256] @ [0, 1]"
  proof -
    have "[0..<258] = [0..<256] @ [256, 257]"
      by (simp add: upt_rec [of 256] upt_rec [of 257] upt_add_eq_append [of 0 256 2, simplified])
    moreover have "map (\<lambda>k. k mod 256) [0..<256] = [0..<256]"
      by (rule map_idI) simp
    ultimately show ?thesis by (simp add: main_start_eq)
  qed
  with r sequence_numbers [OF r w, of LittleEndian] show ?thesis by simp
qed

section \<open>The record of an identifier observed several times\<close>

lemma find_or_create_from_None:
  "fst (find_or_create_from s a xs) = None \<Longrightarrow>
     (\<forall>j<length xs. state (hash_table s ! (xs ! j)) = ENTRY_OCCUPIED \<and>
                      addr (device (hash_table s ! (xs ! j))) \<noteq> a_val a) \<or>
     (\<exists>k<length xs.
        (\<forall>j<k. state (hash_table s ! (xs ! j)) = ENTRY_OCCUPIED \<and>
                addr (device (hash_table s ! (xs ! j))) \<noteq> a_val a) \<and>
        state (hash_table s ! (xs ! k)) \<noteq> ENTRY_OCCUPIED)"
proof (induction xs)
  case Nil
  then show ?case by simp
next
  case (Cons i xs)
  show ?case
  proof (cases "state (hash_table s ! i) = ENTRY_OCCUPIED")
    case False
    then show ?thesis by (intro disjI2 exI [of _ 0]) simp
  next
    case True
    with Cons.prems have other: "addr (device (hash_table s ! i)) \<noteq> a_val a"
      by (auto split: if_splits)
    with True Cons.prems have "fst (find_or_create_from s a xs) = None" by simp
    from Cons.IH [OF this] show ?thesis
    proof
      assume all: "\<forall>j<length xs. state (hash_table s ! (xs ! j)) = ENTRY_OCCUPIED \<and>
                      addr (device (hash_table s ! (xs ! j))) \<noteq> a_val a"
      have "\<forall>j<length (i # xs). state (hash_table s ! ((i # xs) ! j)) = ENTRY_OCCUPIED \<and>
                      addr (device (hash_table s ! ((i # xs) ! j))) \<noteq> a_val a"
        using True other all by (auto simp: less_Suc_eq_0_disj)
      then show ?thesis by (rule disjI1)
    next
      assume "\<exists>k<length xs.
        (\<forall>j<k. state (hash_table s ! (xs ! j)) = ENTRY_OCCUPIED \<and>
                addr (device (hash_table s ! (xs ! j))) \<noteq> a_val a) \<and>
        state (hash_table s ! (xs ! k)) \<noteq> ENTRY_OCCUPIED"
      then obtain k where k: "k < length xs"
        "\<forall>j<k. state (hash_table s ! (xs ! j)) = ENTRY_OCCUPIED \<and>
                addr (device (hash_table s ! (xs ! j))) \<noteq> a_val a"
        "state (hash_table s ! (xs ! k)) \<noteq> ENTRY_OCCUPIED"
        by blast
      have pre: "\<forall>j<Suc k. state (hash_table s ! ((i # xs) ! j)) = ENTRY_OCCUPIED \<and>
                addr (device (hash_table s ! ((i # xs) ! j))) \<noteq> a_val a"
        using True other k(2) by (auto simp: less_Suc_eq_0_disj)
      show ?thesis
        using k(1,3) pre by (intro disjI2 exI [of _ "Suc k"]) simp
    qed
  qed
qed

lemma full_absent:
  assumes pi: "probe_inv (hash_table s)"
    and full: "fst (find_or_create s a) = None"
    and m: "m < HASH_SIZE" and occ: "state (hash_table s ! m) = ENTRY_OCCUPIED"
  shows "addr (device (hash_table s ! m)) \<noteq> a_val a"
proof -
  let ?xs = "probe_sequence (unat (hash_mac (a_val a)))"
  have slots: "?xs ! j = slot_of (a_val a) j" if "j < HASH_SIZE" for j
    using that by (rule probe_sequence_nth)
  from full have "fst (find_or_create_from s a ?xs) = None"
    by (simp only: find_or_create_def)
  from find_or_create_from_None [OF this] show ?thesis
    unfolding length_probe_sequence
  proof
    assume all: "\<forall>j<HASH_SIZE. state (hash_table s ! (?xs ! j)) = ENTRY_OCCUPIED \<and>
                      addr (device (hash_table s ! (?xs ! j))) \<noteq> a_val a"
    obtain km where km: "km < HASH_SIZE" "slot_of (a_val a) km = m"
      using slot_of_surj [OF m] by blast
    from all km(1) have "addr (device (hash_table s ! (?xs ! km))) \<noteq> a_val a" by blast
    then show ?thesis unfolding slots [OF km(1)] km(2) .
  next
    assume "\<exists>k<HASH_SIZE.
        (\<forall>j<k. state (hash_table s ! (?xs ! j)) = ENTRY_OCCUPIED \<and>
                addr (device (hash_table s ! (?xs ! j))) \<noteq> a_val a) \<and>
        state (hash_table s ! (?xs ! k)) \<noteq> ENTRY_OCCUPIED"
    then obtain k where k: "k < HASH_SIZE"
      and pre: "\<forall>j<k. state (hash_table s ! (?xs ! j)) = ENTRY_OCCUPIED \<and>
                addr (device (hash_table s ! (?xs ! j))) \<noteq> a_val a"
      and free: "state (hash_table s ! (?xs ! k)) \<noteq> ENTRY_OCCUPIED"
      by blast
    have pre': "\<forall>j<k. state (hash_table s ! slot_of (a_val a) j) = ENTRY_OCCUPIED \<and>
              addr (device (hash_table s ! slot_of (a_val a) j)) \<noteq> a_val a"
    proof (intro allI impI)
      fix j assume "j < k"
      then have "j < HASH_SIZE" using k by simp
      from slots [OF this] pre \<open>j < k\<close>
      show "state (hash_table s ! slot_of (a_val a) j) = ENTRY_OCCUPIED \<and>
              addr (device (hash_table s ! slot_of (a_val a) j)) \<noteq> a_val a"
        by metis
    qed
    have free': "state (hash_table s ! slot_of (a_val a) k) \<noteq> ENTRY_OCCUPIED"
      using free unfolding slots [OF k] .
    show ?thesis
      by (rule new_slot_absent [OF pi k pre' free' m occ])
  qed
qed

lemma present_not_full:
  assumes inv: "globals_inv s" and la: "length (a_val a) = 6"
    and present: "records_of s (a_val a) \<noteq> []"
  shows "\<not> lookup_full s a"
proof
  let ?s0 = "s\<lparr>buffer_hdr := (buffer_hdr s)\<lparr>n_adv_raw := n_adv_raw (buffer_hdr s) + 1\<rparr>\<rparr>"
  note d = globals_invD [OF inv]
  assume "lookup_full s a"
  then have full: "fst (find_or_create ?s0 a) = None"
    by (simp only: lookup_full_iff [OF d(1) la])
  have pi: "probe_inv (hash_table ?s0)" using d(5) by simp
  from present have "a_val a \<in> {mac. records_of s mac \<noteq> []}" by simp
  then obtain m where m: "m < length (hash_table s)"
    "state (hash_table s ! m) = ENTRY_OCCUPIED" "addr (device (hash_table s ! m)) = a_val a"
    unfolding recorded_identifiers by auto
  have m': "m < HASH_SIZE" using m(1) d(10) by simp
  have occ: "state (hash_table ?s0 ! m) = ENTRY_OCCUPIED" using m(2) by simp
  from full_absent [OF pi full m' occ] m(3) show False by simp
qed

lemma merged_step:
  "merged [recorded (ob_addr ob) (ob_rssi ob) (ob_adv_type ob) (ob_buf ob)
             ((case recs of [] \<Rightarrow> 0 | d # ds \<Rightarrow> n_adv d) + 1)] L =
   merged recs (ob # L)"
  by (cases "L = []") (simp_all add: merged_def recorded_def add.assoc add.commute)

lemma count_case:
  "(case recs of [] \<Rightarrow> 1 | d # ds \<Rightarrow> n_adv d + 1) =
   (case recs of [] \<Rightarrow> 0 | d # ds \<Rightarrow> n_adv d) + (1 :: u8)"
  by (cases recs) simp_all

lemma observe_all_records:
  assumes "globals_inv s" "\<forall>ob\<in>set obs. length (a_val (ob_addr ob)) = 6"
    and "never_full s obs mac"
  shows "\<exists>s1. observe_all s obs = Some s1 \<and> globals_inv s1 \<and>
           records_of s1 mac = merged (records_of s mac) (observations_of mac obs)"
  using assms
proof (induction obs arbitrary: s)
  case Nil
  then show ?case by (simp add: merged_def observations_of_def)
next
  case (Cons ob obs)
  have l: "length (a_val (ob_addr ob)) = 6" using Cons.prems(2) by simp
  from observe_step [OF Cons.prems(1) l] obtain s1 where s1: "observe s ob = Some s1"
    and st: "step_result s (ob_addr ob) (ob_rssi ob) (ob_adv_type ob) (ob_buf ob) s1"
    by blast
  note d = step_resultD [OF st]
  have nf: "never_full s1 obs mac" using Cons.prems(3) s1 by simp
  have wf: "\<forall>ob\<in>set obs. length (a_val (ob_addr ob)) = 6" using Cons.prems(2) by simp
  from Cons.IH [OF d(1) wf nf] obtain s2 where s2: "observe_all s1 obs = Some s2"
    "globals_inv s2"
    "records_of s2 mac = merged (records_of s1 mac) (observations_of mac obs)"
    by blast
  have run: "observe_all s (ob # obs) = Some s2" using s1 s2(1) by simp
  show ?case
  proof (cases "a_val (ob_addr ob) = mac")
    case False
    then have "records_of s1 mac = records_of s mac" using d(5) [of mac] by simp
    moreover have "observations_of mac (ob # obs) = observations_of mac obs"
      using False by (simp add: observations_of_def)
    ultimately show ?thesis using run s2(2,3) by simp
  next
    case True
    then have "\<not> lookup_full s (ob_addr ob)" using Cons.prems(3) by simp
    from d(7) [OF this] have r1: "records_of s1 mac =
       [recorded (ob_addr ob) (ob_rssi ob) (ob_adv_type ob) (ob_buf ob)
          ((case records_of s mac of [] \<Rightarrow> 0 | d # ds \<Rightarrow> n_adv d) + 1)]"
      unfolding True count_case .
    have o: "observations_of mac (ob # obs) = ob # observations_of mac obs"
      using True by (simp add: observations_of_def)
    have "records_of s2 mac = merged (records_of s mac) (observations_of mac (ob # obs))"
      unfolding s2(3) r1 o by (rule merged_step)
    then show ?thesis using run s2(2) by simp
  qed
qed

lemma never_full_present:
  assumes "globals_inv s" "\<forall>ob\<in>set obs. length (a_val (ob_addr ob)) = 6"
    and "records_of s mac \<noteq> []"
  shows "never_full s obs mac"
  using assms
proof (induction obs arbitrary: s)
  case Nil
  then show ?case by simp
next
  case (Cons ob obs)
  have l: "length (a_val (ob_addr ob)) = 6" using Cons.prems(2) by simp
  from observe_step [OF Cons.prems(1) l] obtain s1 where s1: "observe s ob = Some s1"
    and st: "step_result s (ob_addr ob) (ob_rssi ob) (ob_adv_type ob) (ob_buf ob) s1"
    by blast
  note d = step_resultD [OF st]
  have nf: "\<not> lookup_full s (ob_addr ob)" if "a_val (ob_addr ob) = mac"
    using present_not_full [OF Cons.prems(1) l] Cons.prems(3) that by simp
  have "records_of s1 mac \<noteq> []"
  proof (cases "a_val (ob_addr ob) = mac")
    case True
    from d(7) [OF nf [OF True]] show ?thesis unfolding True by simp
  next
    case False
    then show ?thesis using d(5) [of mac] Cons.prems(3) by simp
  qed
  from Cons.IH [OF d(1) _ this] Cons.prems(2) have "never_full s1 obs mac" by simp
  then show ?case using s1 nf by simp
qed

lemma never_full_first:
  assumes inv: "globals_inv s" and wf: "\<forall>ob\<in>set (ob # obs). length (a_val (ob_addr ob)) = 6"
    and nf: "\<not> lookup_full s (ob_addr ob)"
  shows "never_full s (ob # obs) (a_val (ob_addr ob))"
proof -
  have l: "length (a_val (ob_addr ob)) = 6" using wf by simp
  from observe_step [OF inv l] obtain s1 where s1: "observe s ob = Some s1"
    and st: "step_result s (ob_addr ob) (ob_rssi ob) (ob_adv_type ob) (ob_buf ob) s1"
    by blast
  note d = step_resultD [OF st]
  have "records_of s1 (a_val (ob_addr ob)) \<noteq> []" using d(7) [OF nf] by simp
  from never_full_present [OF d(1) _ this] wf have "never_full s1 obs (a_val (ob_addr ob))"
    by simp
  then show ?thesis using s1 nf by simp
qed

lemma records_of_cleared:
  "hash_table s = replicate HASH_SIZE zero_entry \<Longrightarrow> records_of s mac = []"
  by (simp add: records_of_def zero_entry_def filter_empty_conv)

lemma not_full_cleared:
  assumes "hash_table s = replicate HASH_SIZE zero_entry"
    and "n_mac (buffer_hdr s) = 0" and "hash_entries s = 0"
  shows "\<not> lookup_full s a"
proof -
  let ?s0 = "s\<lparr>buffer_hdr := (buffer_hdr s)\<lparr>n_adv_raw := n_adv_raw (buffer_hdr s) + 1\<rparr>\<rparr>"
  have "state (hash_table ?s0 ! unat (hash_mac (a_val a))) \<noteq> ENTRY_OCCUPIED"
    using hash_mac_less [of "a_val a"] assms(1) by (simp add: zero_entry_def)
  from find_or_add_device_home [OF this] show ?thesis
    unfolding lookup_full_def using assms(2,3) by (simp add: MAX_DEVICES_def)
qed

lemma last_observation_of:
  assumes "observations_of mac obs \<noteq> []"
  shows "a_val (ob_addr (last (observations_of mac obs))) = mac"
proof -
  have "last (observations_of mac obs) \<in> set (observations_of mac obs)"
    using assms by (rule last_in_set)
  then show ?thesis by (simp add: observations_of_def)
qed

lemma window_record:
  assumes inv: "globals_inv s" and fresh: "records_of s mac = []"
    and wf: "\<forall>ob\<in>set obs. length (a_val (ob_addr ob)) = 6"
    and nf: "never_full s obs mac"
    and some: "observations_of mac obs \<noteq> []"
  shows "\<exists>s1. observe_all s obs = Some s1 \<and>
           records_of s1 mac =
             [recorded (ob_addr (last (observations_of mac obs)))
                (ob_rssi (last (observations_of mac obs)))
                (ob_adv_type (last (observations_of mac obs)))
                (ob_buf (last (observations_of mac obs)))
                (of_nat (length (observations_of mac obs)))]"
  using observe_all_records [OF inv wf nf] some by (auto simp: merged_def fresh)

text \<open>Claim C1, as the code has it: in a window in which the identifier \<open>mac\<close> has no record
  yet, after any callbacks of which \<open>N > 0\<close> are for \<open>mac\<close> and none of these finds the
  table Full, the table holds exactly one record for \<open>mac\<close>; its \<open>addr_type\<close>, \<open>adv_type\<close> and
  \<open>rssi\<close> are those of the most recent of the \<open>N\<close> observations, its \<open>data_len\<close> and \<open>data\<close>
  are the payload of that observation cut to 31 bytes and padded with zeros, and its
  observation counter \<open>n_adv\<close> is \<open>N\<close> modulo 256.\<close>

theorem repeated_identifier_record:
  assumes "reachable s" and "records_of s mac = []"
    and "\<forall>ob\<in>set obs. length (a_val (ob_addr ob)) = 6"
    and "never_full s obs mac"
    and "observations_of mac obs \<noteq> []"
  shows "\<exists>s1 d. observe_all s obs = Some s1 \<and> records_of s1 mac = [d] \<and>
     addr d = mac \<and>
     addr_type d = type_le (ob_addr (last (observations_of mac obs))) \<and>
     adv_type d = ob_adv_type (last (observations_of mac obs)) \<and>
     rssi d = ob_rssi (last (observations_of mac obs)) \<and>
     data_len d = of_nat (min (length (ob_buf (last (observations_of mac obs)))) 31) \<and>
     data d = take 31 (ob_buf (last (observations_of mac obs))) @
              replicate (31 - length (ob_buf (last (observations_of mac obs)))) 0 \<and>
     unat (n_adv d) = length (observations_of mac obs) mod 256"
proof -
  from window_record [OF reachable_inv [OF assms(1)] assms(2-5)]
  obtain s1 where s1: "observe_all s obs = Some s1"
    "records_of s1 mac =
             [recorded (ob_addr (last (observations_of mac obs)))
                (ob_rssi (last (observations_of mac obs)))
                (ob_adv_type (last (observations_of mac obs)))
                (ob_buf (last (observations_of mac obs)))
                (of_nat (length (observations_of mac obs)))]"
    by blast
  have t: "take (min (length b) 31) b = take 31 b" for b :: "u8 list"
    by (simp add: min_def)
  show ?thesis
    using s1 last_observation_of [OF assms(5)]
    by (simp add: recorded_def unat_of_nat t)
qed

theorem repeated_identifier_record_witness:
  "reachable main_start \<and> records_of main_start [1, 2, 3, 4, 5, 6] = []
   \<and> observations_of [1, 2, 3, 4, 5, 6]
        [\<lparr>ob_addr = \<lparr>type_le = 1, a_val = [1, 2, 3, 4, 5, 6]\<rparr>, ob_rssi = 200,
          ob_adv_type = 3, ob_buf = [9, 9, 9]\<rparr>,
         \<lparr>ob_addr = \<lparr>type_le = 1, a_val = [6, 5, 4, 3, 2, 1]\<rparr>, ob_rssi = 190,
          ob_adv_type = 3, ob_buf = [8, 8]\<rparr>,
         \<lparr>ob_addr = \<lparr>type_le = 0, a_val = [1, 2, 3, 4, 5, 6]\<rparr>, ob_rssi = 180,
          ob_adv_type = 0, ob_buf = [7]\<rparr>] \<noteq> []
   \<and> (\<exists>s1. observe_all main_start
        [\<lparr>ob_addr = \<lparr>type_le = 1, a_val = [1, 2, 3, 4, 5, 6]\<rparr>, ob_rssi = 200,
          ob_adv_type = 3, ob_buf = [9, 9, 9]\<rparr>,
         \<lparr>ob_addr = \<lparr>type_le = 1, a_val = [6, 5, 4, 3, 2, 1]\<rparr>, ob_rssi = 190,
          ob_adv_type = 3, ob_buf = [8, 8]\<rparr>,
         \<lparr>ob_addr = \<lparr>type_le = 0, a_val = [1, 2, 3, 4, 5, 6]\<rparr>, ob_rssi = 180,
          ob_adv_type = 0, ob_buf = [7]\<rparr>] = Some s1
      \<and> records_of s1 [1, 2, 3, 4, 5, 6] =
          [\<lparr>addr = [1, 2, 3, 4, 5, 6], addr_type = 0, adv_type = 0, rssi = 180,
            data_len = 1, data = [7] @ replicate 30 0, n_adv = 2\<rparr>])"
proof -
  let ?o1 = "\<lparr>ob_addr = \<lparr>type_le = 1, a_val = [1, 2, 3, 4, 5, 6]\<rparr>, ob_rssi = 200,
          ob_adv_type = 3, ob_buf = [9, 9, 9 :: u8]\<rparr>"
  let ?obs = "[?o1,
         \<lparr>ob_addr = \<lparr>type_le = 1, a_val = [6, 5, 4, 3, 2, 1]\<rparr>, ob_rssi = 190,
          ob_adv_type = 3, ob_buf = [8, 8]\<rparr>,
         \<lparr>ob_addr = \<lparr>type_le = 0, a_val = [1, 2, 3, 4, 5, 6]\<rparr>, ob_rssi = 180,
          ob_adv_type = 0, ob_buf = [7]\<rparr>]"
  have r: "reachable main_start" by (rule reachable.start)
  have f: "records_of main_start [1, 2, 3, 4, 5, 6] = []"
    by (rule records_of_cleared) (rule hash_table_main_start)
  have w: "\<forall>ob\<in>set ?obs. length (a_val (ob_addr ob)) = 6" by simp
  have nf0: "\<not> lookup_full main_start (ob_addr ?o1)"
    by (rule not_full_cleared) (simp_all add: main_start_eq)
  have nf: "never_full main_start ?obs [1, 2, 3, 4, 5, 6]"
    using never_full_first [OF reachable_inv [OF r] w nf0] by simp
  have ne: "observations_of [1, 2, 3, 4, 5, 6] ?obs \<noteq> []"
    by (simp add: observations_of_def)
  have la: "last (observations_of [1, 2, 3, 4, 5, 6] ?obs) =
      \<lparr>ob_addr = \<lparr>type_le = 0, a_val = [1, 2, 3, 4, 5, 6]\<rparr>, ob_rssi = 180,
          ob_adv_type = 0, ob_buf = [7]\<rparr>"
    by (simp add: observations_of_def)
  have le: "length (observations_of [1, 2, 3, 4, 5, 6] ?obs) = 2"
    by (simp add: observations_of_def)
  from repeated_identifier_record [OF r f w nf ne] show ?thesis
    unfolding la le
  proof (elim exE conjE)
    fix s1 d
    assume run: "observe_all main_start ?obs = Some s1"
      and rec: "records_of s1 [1, 2, 3, 4, 5, 6] = [d]"
      and d: "addr d = [1, 2, 3, 4, 5, 6]"
        "addr_type d = type_le (ob_addr \<lparr>ob_addr = \<lparr>type_le = 0, a_val = [1, 2, 3, 4, 5, 6]\<rparr>,
            ob_rssi = 180, ob_adv_type = 0, ob_buf = [7]\<rparr>)"
        "adv_type d = ob_adv_type \<lparr>ob_addr = \<lparr>type_le = 0, a_val = [1, 2, 3, 4, 5, 6]\<rparr>,
            ob_rssi = 180, ob_adv_type = 0, ob_buf = [7]\<rparr>"
        "rssi d = ob_rssi \<lparr>ob_addr = \<lparr>type_le = 0, a_val = [1, 2, 3, 4, 5, 6]\<rparr>,
            ob_rssi = 180, ob_adv_type = 0, ob_buf = [7]\<rparr>"
        "data_len d = of_nat (min (length (ob_buf \<lparr>ob_addr = \<lparr>type_le = 0,
            a_val = [1, 2, 3, 4, 5, 6]\<rparr>, ob_rssi = 180, ob_adv_type = 0, ob_buf = [7]\<rparr>)) 31)"
        "data d = take 31 (ob_buf \<lparr>ob_addr = \<lparr>type_le = 0, a_val = [1, 2, 3, 4, 5, 6]\<rparr>,
            ob_rssi = 180, ob_adv_type = 0, ob_buf = [7]\<rparr>) @
          replicate (31 - length (ob_buf \<lparr>ob_addr = \<lparr>type_le = 0,
            a_val = [1, 2, 3, 4, 5, 6]\<rparr>, ob_rssi = 180, ob_adv_type = 0, ob_buf = [7]\<rparr>)) 0"
      and n: "unat (n_adv d) = 2 mod 256"
    have "unat (n_adv d) = unat (2 :: u8)" using n by simp
    then have n2: "n_adv d = 2" by (simp only: word_unat_eq_iff)
    have "d = \<lparr>addr = [1, 2, 3, 4, 5, 6], addr_type = 0, adv_type = 0, rssi = 180,
            data_len = 1, data = [7] @ replicate 30 0, n_adv = 2\<rparr>"
      using d n2 by (cases d) simp
    then have "records_of s1 [1, 2, 3, 4, 5, 6] =
          [\<lparr>addr = [1, 2, 3, 4, 5, 6], addr_type = 0, adv_type = 0, rssi = 180,
            data_len = 1, data = [7] @ replicate 30 0, n_adv = 2\<rparr>]"
      using rec by simp
    with run have ex: "\<exists>s1. observe_all main_start ?obs = Some s1 \<and>
        records_of s1 [1, 2, 3, 4, 5, 6] =
          [\<lparr>addr = [1, 2, 3, 4, 5, 6], addr_type = 0, adv_type = 0, rssi = 180,
            data_len = 1, data = [7] @ replicate 30 0, n_adv = 2\<rparr>]"
      by (intro exI [of _ s1] conjI)
    from r f ne ex show ?thesis by (intro conjI)
  qed
qed

subsection \<open>One identifier observed again and again\<close>

lemma repeat_callback:
  "scan_cb (main_start
       \<lparr>hash_table := (replicate HASH_SIZE zero_entry)[117 :=
           \<lparr>state = ENTRY_OCCUPIED,
            device = \<lparr>addr = [1, 2, 3, 4, 5, 6], addr_type = 1, adv_type = 3, rssi = 200,
                      data_len = 3, data = [9, 9, 9] @ replicate 28 0, n_adv = n\<rparr>\<rparr>],
        buffer_hdr := \<lparr>header = [0x55, 0x55, 0x55, 0x55], sequence = 0,
                       n_adv_raw = m, n_mac = 1\<rparr>,
        hash_entries := 1\<rparr>)
     \<lparr>type_le = 1, a_val = [1, 2, 3, 4, 5, 6]\<rparr> 200 3 [9, 9, 9] =
     Some (main_start
       \<lparr>hash_table := (replicate HASH_SIZE zero_entry)[117 :=
           \<lparr>state = ENTRY_OCCUPIED,
            device = \<lparr>addr = [1, 2, 3, 4, 5, 6], addr_type = 1, adv_type = 3, rssi = 200,
                      data_len = 3, data = [9, 9, 9] @ replicate 28 0, n_adv = n + 1\<rparr>\<rparr>],
        buffer_hdr := \<lparr>header = [0x55, 0x55, 0x55, 0x55], sequence = 0,
                       n_adv_raw = m + 1, n_mac = 1\<rparr>,
        hash_entries := 1\<rparr>)"
  by (simp add: scan_cb_def find_or_add_device_home_hit hash_123456 main_start_eq zero_entry_def
     MAX_DEVICES_def HASH_SIZE_def Let_def zero_device_def)

lemma repeat_observe:
  "observe_all (main_start
       \<lparr>hash_table := (replicate HASH_SIZE zero_entry)[117 :=
           \<lparr>state = ENTRY_OCCUPIED,
            device = \<lparr>addr = [1, 2, 3, 4, 5, 6], addr_type = 1, adv_type = 3, rssi = 200,
                      data_len = 3, data = [9, 9, 9] @ replicate 28 0, n_adv = n\<rparr>\<rparr>],
        buffer_hdr := \<lparr>header = [0x55, 0x55, 0x55, 0x55], sequence = 0,
                       n_adv_raw = m, n_mac = 1\<rparr>,
        hash_entries := 1\<rparr>)
     (replicate k \<lparr>ob_addr = \<lparr>type_le = 1, a_val = [1, 2, 3, 4, 5, 6]\<rparr>, ob_rssi = 200,
          ob_adv_type = 3, ob_buf = [9, 9, 9]\<rparr>) =
     Some (main_start
       \<lparr>hash_table := (replicate HASH_SIZE zero_entry)[117 :=
           \<lparr>state = ENTRY_OCCUPIED,
            device = \<lparr>addr = [1, 2, 3, 4, 5, 6], addr_type = 1, adv_type = 3, rssi = 200,
                      data_len = 3, data = [9, 9, 9] @ replicate 28 0,
                      n_adv = n + of_nat k\<rparr>\<rparr>],
        buffer_hdr := \<lparr>header = [0x55, 0x55, 0x55, 0x55], sequence = 0,
                       n_adv_raw = m + of_nat k, n_mac = 1\<rparr>,
        hash_entries := 1\<rparr>)"
proof (induction k arbitrary: n m)
  case 0
  show ?case by simp
next
  case (Suc k)
  show ?case
    by (simp only: replicate_Suc observe_all.simps observe_def observation.select_convs
          repeat_callback option.case Suc.IH)
       (simp add: ac_simps)
qed

lemma u8_256: "(256 :: u8) = 0"
  by (simp add: word_unat_eq_iff)

lemma replicate_first: "0 < n \<Longrightarrow> replicate n x = x # replicate (n - 1) x"
  by (cases n) simp_all

lemma never_full_replicate:
  assumes "globals_inv s" "length (a_val (ob_addr ob)) = 6" "\<not> lookup_full s (ob_addr ob)"
    and "0 < n"
  shows "never_full s (replicate n ob) (a_val (ob_addr ob))"
proof -
  have "\<forall>x\<in>set (ob # replicate (n - 1) ob). length (a_val (ob_addr x)) = 6"
    using assms(2) by auto
  from never_full_first [OF assms(1) this assms(3)] show ?thesis
    by (simp only: replicate_first [OF assms(4), symmetric])
qed

lemma observations_of_replicate:
  "observations_of (a_val (ob_addr ob)) (replicate n ob) = replicate n ob"
  by (simp add: observations_of_def filter_replicate)

text \<open>Claim C1 as it is stated fails: after 256 observations of one identifier, none of
  which finds the table Full, its only record has the observation counter 0, not 256.\<close>

theorem repeated_identifier_count_counterexample:
  "observe_all main_start
     (replicate 256 \<lparr>ob_addr = \<lparr>type_le = 1, a_val = [1, 2, 3, 4, 5, 6]\<rparr>, ob_rssi = 200,
          ob_adv_type = 3, ob_buf = [9, 9, 9]\<rparr>) =
     Some (main_start
       \<lparr>hash_table := (replicate HASH_SIZE zero_entry)[117 :=
           \<lparr>state = ENTRY_OCCUPIED,
            device = \<lparr>addr = [1, 2, 3, 4, 5, 6], addr_type = 1, adv_type = 3, rssi = 200,
                      data_len = 3, data = [9, 9, 9] @ replicate 28 0, n_adv = 0\<rparr>\<rparr>],
        buffer_hdr := \<lparr>header = [0x55, 0x55, 0x55, 0x55], sequence = 0,
                       n_adv_raw = 256, n_mac = 1\<rparr>,
        hash_entries := 1\<rparr>)
   \<and> never_full main_start
        (replicate 256 \<lparr>ob_addr = \<lparr>type_le = 1, a_val = [1, 2, 3, 4, 5, 6]\<rparr>, ob_rssi = 200,
          ob_adv_type = 3, ob_buf = [9, 9, 9]\<rparr>) [1, 2, 3, 4, 5, 6]
   \<and> length (observations_of [1, 2, 3, 4, 5, 6]
        (replicate 256 \<lparr>ob_addr = \<lparr>type_le = 1, a_val = [1, 2, 3, 4, 5, 6]\<rparr>, ob_rssi = 200,
          ob_adv_type = 3, ob_buf = [9, 9, 9]\<rparr>)) = 256
   \<and> records_of (main_start
       \<lparr>hash_table := (replicate HASH_SIZE zero_entry)[117 :=
           \<lparr>state = ENTRY_OCCUPIED,
            device = \<lparr>addr = [1, 2, 3, 4, 5, 6], addr_type = 1, adv_type = 3, rssi = 200,
                      data_len = 3, data = [9, 9, 9] @ replicate 28 0, n_adv = 0\<rparr>\<rparr>],
        buffer_hdr := \<lparr>header = [0x55, 0x55, 0x55, 0x55], sequence = 0,
                       n_adv_raw = 256, n_mac = 1\<rparr>,
        hash_entries := 1\<rparr>) [1, 2, 3, 4, 5, 6] =
      [\<lparr>addr = [1, 2, 3, 4, 5, 6], addr_type = 1, adv_type = 3, rssi = 200,
        data_len = 3, data = [9, 9, 9] @ replicate 28 0, n_adv = 0\<rparr>]"
proof (intro conjI)
  let ?ob = "\<lparr>ob_addr = \<lparr>type_le = 1, a_val = [1, 2, 3, 4, 5, 6]\<rparr>, ob_rssi = 200,
          ob_adv_type = 3, ob_buf = [9, 9, 9 :: u8]\<rparr>"
  let ?e = "\<lparr>state = ENTRY_OCCUPIED,
            device = \<lparr>addr = [1, 2, 3, 4, 5, 6], addr_type = 1, adv_type = 3, rssi = 200,
                      data_len = 3, data = [9, 9, 9] @ replicate 28 0, n_adv = 0\<rparr>\<rparr>"
  have split: "replicate 256 ?ob = ?ob # replicate 255 ?ob"
    using replicate_first [of 256 ?ob] by simp
  have one: "observe main_start ?ob = Some (main_start
       \<lparr>hash_table := (replicate HASH_SIZE zero_entry)[117 :=
           \<lparr>state = ENTRY_OCCUPIED,
            device = \<lparr>addr = [1, 2, 3, 4, 5, 6], addr_type = 1, adv_type = 3, rssi = 200,
                      data_len = 3, data = [9, 9, 9] @ replicate 28 0, n_adv = 1\<rparr>\<rparr>],
        buffer_hdr := \<lparr>header = [0x55, 0x55, 0x55, 0x55], sequence = 0,
                       n_adv_raw = 1, n_mac = 1\<rparr>,
        hash_entries := 1\<rparr>)"
    by (simp only: observe_def observation.select_convs first_callback)
  show "observe_all main_start (replicate 256 ?ob) =
     Some (main_start
       \<lparr>hash_table := (replicate HASH_SIZE zero_entry)[117 := ?e],
        buffer_hdr := \<lparr>header = [0x55, 0x55, 0x55, 0x55], sequence = 0,
                       n_adv_raw = 256, n_mac = 1\<rparr>,
        hash_entries := 1\<rparr>)"
    by (simp only: split observe_all.simps one option.case repeat_observe)
       (simp add: u8_256)
  have nf0: "\<not> lookup_full main_start (ob_addr ?ob)"
    by (rule not_full_cleared) (simp_all add: main_start_eq)
  from never_full_replicate [OF reachable_inv [OF reachable.start] _ nf0, of 256]
  show "never_full main_start (replicate 256 ?ob) [1, 2, 3, 4, 5, 6]" by simp
  show "length (observations_of [1, 2, 3, 4, 5, 6] (replicate 256 ?ob)) = 256"
    using observations_of_replicate [of ?ob 256] by simp
  have i: "117 < HASH_SIZE" by (simp add: HASH_SIZE_def)
  have "filter (\<lambda>e. state e = ENTRY_OCCUPIED \<and> addr (device e) = [1, 2, 3, 4, 5, 6])
          ((replicate HASH_SIZE zero_entry)[117 := ?e]) = [?e]"
    by (rule filter_update_present) (simp_all add: i zero_entry_def)
  then show "records_of (main_start
       \<lparr>hash_table := (replicate HASH_SIZE zero_entry)[117 := ?e],
        buffer_hdr := \<lparr>header = [0x55, 0x55, 0x55, 0x55], sequence = 0,
                       n_adv_raw = 256, n_mac = 1\<rparr>,
        hash_entries := 1\<rparr>) [1, 2, 3, 4, 5, 6] =
      [\<lparr>addr = [1, 2, 3, 4, 5, 6], addr_type = 1, adv_type = 3, rssi = 200,
        data_len = 3, data = [9, 9, 9] @ replicate 28 0, n_adv = 0\<rparr>]"
    by (simp add: records_of_def)
qed

section \<open>The counters wrap\<close>

lemma unat_u16_add_of_nat:
  fixes w :: u16
  shows "unat (w + of_nat k) = (unat w + k) mod 2 ^ 16"
  by (simp add: unat_word_ariths unat_of_nat mod_simps)

text \<open>Claim C10: the counters wrap at their widths. After any callbacks of a window,
  \<open>n_adv_raw\<close> is its value before plus the number of callbacks, modulo \<open>2^16\<close>; and the
  record of an identifier that had no record before, was observed \<open>N > 0\<close> times and never
  found the table Full has \<open>n_adv\<close> equal to \<open>N\<close> modulo \<open>2^8\<close>, for \<open>N > 255\<close> too: the
  counter neither saturates nor traps.\<close>

theorem counters_wrap:
  assumes "reachable s" and "\<forall>ob\<in>set obs. length (a_val (ob_addr ob)) = 6"
  shows "\<exists>s1. observe_all s obs = Some s1 \<and>
     unat (n_adv_raw (buffer_hdr s1)) = (unat (n_adv_raw (buffer_hdr s)) + length obs) mod 2 ^ 16 \<and>
     (records_of s mac = [] \<longrightarrow> never_full s obs mac \<longrightarrow> observations_of mac obs \<noteq> [] \<longrightarrow>
        (\<exists>d. records_of s1 mac = [d] \<and>
             unat (n_adv d) = length (observations_of mac obs) mod 2 ^ 8))"
proof -
  note inv = reachable_inv [OF assms(1)]
  from observe_all_inv [OF inv assms(2)] obtain s1 where s1: "observe_all s obs = Some s1"
    "n_adv_raw (buffer_hdr s1) = n_adv_raw (buffer_hdr s) + of_nat (length obs)"
    by blast
  have raw: "unat (n_adv_raw (buffer_hdr s1)) =
      (unat (n_adv_raw (buffer_hdr s)) + length obs) mod 2 ^ 16"
    unfolding s1(2) by (rule unat_u16_add_of_nat)
  have rec: "\<exists>d. records_of s1 mac = [d] \<and>
             unat (n_adv d) = length (observations_of mac obs) mod 2 ^ 8"
    if "records_of s mac = []" "never_full s obs mac" "observations_of mac obs \<noteq> []"
  proof -
    from window_record [OF inv that(1) assms(2) that(2,3)] s1(1)
    have "records_of s1 mac =
             [recorded (ob_addr (last (observations_of mac obs)))
                (ob_rssi (last (observations_of mac obs)))
                (ob_adv_type (last (observations_of mac obs)))
                (ob_buf (last (observations_of mac obs)))
                (of_nat (length (observations_of mac obs)))]"
      by auto
    then show ?thesis by (simp add: recorded_def unat_of_nat)
  qed
  from s1(1) raw rec show ?thesis by blast
qed

theorem counters_wrap_witness:
  "reachable main_start
   \<and> (\<exists>s1. observe_all main_start
        (replicate 65836 \<lparr>ob_addr = \<lparr>type_le = 1, a_val = [1, 2, 3, 4, 5, 6]\<rparr>,
            ob_rssi = 200, ob_adv_type = 3, ob_buf = [9, 9, 9]\<rparr>) = Some s1
      \<and> unat (n_adv_raw (buffer_hdr s1)) = 300
      \<and> (\<exists>d. records_of s1 [1, 2, 3, 4, 5, 6] = [d] \<and> unat (n_adv d) = 44))"
proof -
  let ?ob = "\<lparr>ob_addr = \<lparr>type_le = 1, a_val = [1, 2, 3, 4, 5, 6]\<rparr>, ob_rssi = 200,
          ob_adv_type = 3, ob_buf = [9, 9, 9 :: u8]\<rparr>"
  have r: "reachable main_start" by (rule reachable.start)
  have w: "\<forall>ob\<in>set (replicate 65836 ?ob). length (a_val (ob_addr ob)) = 6" by simp
  have f: "records_of main_start [1, 2, 3, 4, 5, 6] = []"
    by (rule records_of_cleared) (rule hash_table_main_start)
  have nf0: "\<not> lookup_full main_start (ob_addr ?ob)"
    by (rule not_full_cleared) (simp_all add: main_start_eq)
  from never_full_replicate [OF reachable_inv [OF r] _ nf0, of 65836]
  have nf: "never_full main_start (replicate 65836 ?ob) [1, 2, 3, 4, 5, 6]" by simp
  have o: "observations_of [1, 2, 3, 4, 5, 6] (replicate 65836 ?ob) = replicate 65836 ?ob"
    using observations_of_replicate [of ?ob 65836] by simp
  have ne: "observations_of [1, 2, 3, 4, 5, 6] (replicate 65836 ?ob) \<noteq> []"
    unfolding o by (simp add: replicate_empty)
  have raw0: "unat (n_adv_raw (buffer_hdr main_start)) = 0" by (simp add: main_start_eq)
  from counters_wrap [OF r w, of "[1, 2, 3, 4, 5, 6]"]
  obtain s1 where s1: "observe_all main_start (replicate 65836 ?ob) = Some s1"
    "unat (n_adv_raw (buffer_hdr s1)) =
       (unat (n_adv_raw (buffer_hdr main_start)) + length (replicate 65836 ?ob)) mod 2 ^ 16"
    "records_of main_start [1, 2, 3, 4, 5, 6] = [] \<longrightarrow>
     never_full main_start (replicate 65836 ?ob) [1, 2, 3, 4, 5, 6] \<longrightarrow>
     observations_of [1, 2, 3, 4, 5, 6] (replicate 65836 ?ob) \<noteq> [] \<longrightarrow>
        (\<exists>d. records_of s1 [1, 2, 3, 4, 5, 6] = [d] \<and>
             unat (n_adv d) =
               length (observations_of [1, 2, 3, 4, 5, 6] (replicate 65836 ?ob)) mod 2 ^ 8)"
    by blast
  from s1(3) f nf ne obtain d where d: "records_of s1 [1, 2, 3, 4, 5, 6] = [d]"
    "unat (n_adv d) =
       length (observations_of [1, 2, 3, 4, 5, 6] (replicate 65836 ?ob)) mod 2 ^ 8"
    by blast
  have n: "unat (n_adv d) = 44" using d(2) unfolding o by simp
  have m: "unat (n_adv_raw (buffer_hdr s1)) = 300" using s1(2) unfolding raw0 by simp
  from r s1(1) m d(1) n show ?thesis by blast
qed

end
